theory Spec2Isabelle
  imports Main "HOL-Library.Word"
begin

section \<open>Machine types\<close>

text \<open>
  The kernel runs on a 64-bit machine: \<open>Handle\<close> is \<open>uint64_t\<close>, async ids are
  \<open>int64_t\<close> (read as two's complement through \<open>sint\<close>), \<open>Word\<close> and \<open>uintptr_t\<close>
  are 64-bit registers. Addition on these types wraps around.
\<close>

type_synonym Handle = "64 word"
type_synonym int64_t = "64 word"
type_synonym uintptr_t = "64 word"
type_synonym Word = "64 word"
type_synonym byte = "8 word"

section \<open>Async ids\<close>

text \<open>
  Modelled from the spec: \<open>frigg::fetchInc\<close> is not part of the sources at hand. Async
  ids come from one global counter that is read and advanced atomically:
  \<open>fetchInc<int64_t>(&nextAsyncId, async_id)\<close> hands the old value of the cell to the
  caller and stores the old value plus one, in 64-bit arithmetic. Its result is the pair
  (value handed out, value stored). Being atomic, concurrent callers are served one after
  the other, so a sequence of calls is a sequence of these steps.
\<close>

definition fetchInc :: "int64_t \<Rightarrow> int64_t \<times> int64_t" where
  "fetchInc cell = (cell, cell + 1)"

text \<open>\<open>static int64_t nextAsyncId = 1;\<close>\<close>

definition nextAsyncId_boot :: int64_t where
  "nextAsyncId_boot = 1"

text \<open>\<open>allocAsyncId\<close>, with the global \<open>nextAsyncId\<close> passed in and returned.\<close>

definition allocAsyncId :: "int64_t \<Rightarrow> int64_t \<times> int64_t" where
  "allocAsyncId nextAsyncId =
     (case fetchInc nextAsyncId of (async_id, stored) \<Rightarrow> (async_id, stored))"

text \<open>The ids returned by the first \<open>n\<close> calls made from a given counter value.\<close>

fun allocAsyncId_calls :: "nat \<Rightarrow> int64_t \<Rightarrow> int64_t list \<times> int64_t" where
  "allocAsyncId_calls 0 nextAsyncId = ([], nextAsyncId)"
| "allocAsyncId_calls (Suc n) nextAsyncId =
     (case allocAsyncId nextAsyncId of (async_id, stored) \<Rightarrow>
        (case allocAsyncId_calls n stored of (ids, final) \<Rightarrow> (async_id # ids, final)))"

text \<open>The id returned by the call that follows \<open>k\<close> earlier calls since boot.\<close>

definition issued_async_id :: "nat \<Rightarrow> int64_t" where
  "issued_async_id k = fst (allocAsyncId (snd (allocAsyncId_calls k nextAsyncId_boot)))"

record SubmitInfo =
  asyncId :: int64_t
  submitFunction :: uintptr_t
  submitObject :: uintptr_t

text \<open>\<open>SubmitInfo::SubmitInfo()\<close> and the three-argument constructor.\<close>

definition SubmitInfo_default :: SubmitInfo where
  "SubmitInfo_default = \<lparr> asyncId = 0, submitFunction = 0, submitObject = 0 \<rparr>"

definition SubmitInfo_init :: "int64_t \<Rightarrow> uintptr_t \<Rightarrow> uintptr_t \<Rightarrow> SubmitInfo" where
  "SubmitInfo_init async_id submit_function submit_object =
     \<lparr> asyncId = async_id, submitFunction = submit_function, submitObject = submit_object \<rparr>"

section \<open>Descriptors and the Universe\<close>

text \<open>
  \<open>AnyDescriptor\<close> is a tagged union over the descriptor kinds; each descriptor holds a
  shared pointer to its kernel object, which is modelled by the identity of the object.
\<close>

type_synonym object_ref = nat

datatype AnyDescriptor =
    MemoryAccessDescriptor object_ref
  | BiDirectionFirstDescriptor object_ref
  | BiDirectionSecondDescriptor object_ref

text \<open>
  Modelled from the spec: \<open>frigg::Hashmap\<close> (only used, not defined, by the Universe) is
  the "hash map \<open>Handle \<rightarrow> AnyDescriptor\<close>" of the data model: \<open>insert\<close> stores an entry,
  \<open>get\<close> looks one up and yields null when there is none, \<open>remove\<close> takes the entry out
  and returns it if there was one.
\<close>

record Universe =
  descriptorMap :: "Handle \<rightharpoonup> AnyDescriptor"
  nextHandle :: Handle

text \<open>\<open>Universe::Universe()\<close>: an empty map, \<open>_nextHandle(1)\<close>.\<close>

definition Universe_new :: Universe where
  "Universe_new = \<lparr> descriptorMap = Map.empty, nextHandle = 1 \<rparr>"

text \<open>\<open>Handle handle = _nextHandle++; _descriptorMap.insert(handle, descriptor); return handle;\<close>\<close>

definition attachDescriptor :: "Universe \<Rightarrow> AnyDescriptor \<Rightarrow> Handle \<times> Universe" where
  "attachDescriptor u descriptor =
     (let handle = nextHandle u;
          u1 = u\<lparr> nextHandle := nextHandle u + 1 \<rparr>;
          u2 = u1\<lparr> descriptorMap := (descriptorMap u1)(handle \<mapsto> descriptor) \<rparr>
      in (handle, u2))"

text \<open>\<open>return _descriptorMap.get(handle);\<close> (\<open>None\<close> is the null pointer).\<close>

definition getDescriptor :: "Universe \<Rightarrow> Handle \<Rightarrow> AnyDescriptor option" where
  "getDescriptor u handle = descriptorMap u handle"

text \<open>\<open>return _descriptorMap.remove(handle);\<close>\<close>

definition detachDescriptor :: "Universe \<Rightarrow> Handle \<Rightarrow> AnyDescriptor option \<times> Universe" where
  "detachDescriptor u handle =
     (descriptorMap u handle, u\<lparr> descriptorMap := (descriptorMap u)(handle := None) \<rparr>)"

text \<open>
  A sequence of calls on one Universe, and the log of what each call returned.
\<close>

datatype universe_call = Attach AnyDescriptor | Detach Handle

datatype universe_event = Attached Handle AnyDescriptor | Detached Handle "AnyDescriptor option"

fun universe_step :: "Universe \<times> universe_event list \<Rightarrow> universe_call
    \<Rightarrow> Universe \<times> universe_event list" where
  "universe_step (u, evs) (Attach d) =
     (case attachDescriptor u d of (h, u') \<Rightarrow> (u', evs @ [Attached h d]))"
| "universe_step (u, evs) (Detach h) =
     (case detachDescriptor u h of (r, u') \<Rightarrow> (u', evs @ [Detached h r]))"

definition universe_run :: "Universe \<Rightarrow> universe_call list \<Rightarrow> Universe \<times> universe_event list" where
  "universe_run u calls = foldl universe_step (u, []) calls"

fun is_attach :: "universe_call \<Rightarrow> bool" where
  "is_attach (Attach _) = True"
| "is_attach (Detach _) = False"

definition num_attach :: "universe_call list \<Rightarrow> nat" where
  "num_attach calls = length (filter is_attach calls)"

text \<open>The handles that the attach calls of a log returned, in order.\<close>

fun issued_handles :: "universe_event list \<Rightarrow> Handle list" where
  "issued_handles [] = []"
| "issued_handles (Attached h _ # evs) = h # issued_handles evs"
| "issued_handles (Detached _ _ # evs) = issued_handles evs"

fun detaches :: "Handle \<Rightarrow> universe_event \<Rightarrow> bool" where
  "detaches h (Detached h' _) = (h = h')"
| "detaches h (Attached _ _) = False"

text \<open>
  \<open>live evs h d\<close>: in the log \<open>evs\<close>, descriptor \<open>d\<close> was attached under \<open>h\<close> and \<open>h\<close> has
  not been detached since.
\<close>

fun live :: "universe_event list \<Rightarrow> Handle \<Rightarrow> AnyDescriptor \<Rightarrow> bool" where
  "live [] h d = False"
| "live (Attached h' d' # evs) h d =
     (live evs h d \<or> (h' = h \<and> d' = d \<and> \<not> list_ex (detaches h) evs))"
| "live (Detached h' r # evs) h d = live evs h d"

text \<open>
  \<open>n\<close> rounds of attaching a descriptor and detaching it again, the handles counted up
  from \<open>first\<close>: the Universe never holds more than one of these descriptors at a time.
\<close>

fun attach_detach_rounds :: "Handle \<Rightarrow> nat \<Rightarrow> universe_call list" where
  "attach_detach_rounds first 0 = []"
| "attach_detach_rounds first (Suc n) =
     attach_detach_rounds first n
     @ [Attach (MemoryAccessDescriptor 0), Detach (first + of_nat n)]"

text \<open>What holds of a Universe and the log of the calls made on it, until the counter wraps.\<close>

definition universe_inv :: "Universe \<Rightarrow> universe_event list \<Rightarrow> bool" where
  "universe_inv u evs \<longleftrightarrow>
     (\<forall>h d. descriptorMap u h = Some d \<longleftrightarrow> live evs h d) \<and>
     (\<forall>h \<in> set (issued_handles evs). unat h < unat (nextHandle u)) \<and>
     0 \<notin> set (issued_handles evs) \<and> distinct (issued_handles evs) \<and>
     0 < unat (nextHandle u)"

section \<open>The syscall error words and handle resolution\<close>

text \<open>
  Modelled from the spec: the error taxonomy of the syscall interface, returned as the
  first result word (the header \<open>hel.h\<close> that declares \<open>HelError\<close> is not part of the
  sources at hand).
\<close>

datatype HelError =
    Ok | IllegalSyscall | IllegalHandle | NoSuchObject | NoMemory
  | BufferTooSmall | BadDescriptor | Timeout | Dismissed | Fault

text \<open>
  Modelled from the spec: the \<open>hel*\<close> functions behind the dispatcher are not part of
  the sources at hand. The dispatcher "resolves handle arguments through the current
  thread's Universe"; a bad handle "surfaces as an error word", \<open>IllegalHandle\<close>.
  \<open>hel_resolve\<close> is this first step of every syscall that takes handles: it yields the
  error word, or the descriptors the operation then works on.
\<close>

fun hel_resolve :: "Universe \<Rightarrow> Handle list \<Rightarrow> HelError + AnyDescriptor list" where
  "hel_resolve u [] = Inr []"
| "hel_resolve u (h # hs) =
     (case getDescriptor u h of
        None \<Rightarrow> Inl IllegalHandle
      | Some d \<Rightarrow>
          (case hel_resolve u hs of Inl e \<Rightarrow> Inl e | Inr ds \<Rightarrow> Inr (d # ds)))"

text \<open>
  Modelled from the spec: the error word of a syscall that takes the handles \<open>handles\<close>
  and then performs \<open>operation\<close> on the descriptors they name.
\<close>

definition hel_syscall ::
  "Universe \<Rightarrow> Handle list \<Rightarrow> (AnyDescriptor list \<Rightarrow> HelError) \<Rightarrow> HelError" where
  "hel_syscall u handles operation =
     (case hel_resolve u handles of Inl e \<Rightarrow> e | Inr ds \<Rightarrow> operation ds)"

text \<open>
  Modelled from the spec: \<open>CloseDescriptor(h)\<close> "detaches and drops" the descriptor and
  returns an error word; a handle that names nothing is a bad handle.
\<close>

definition helCloseDescriptor :: "Universe \<Rightarrow> Handle \<Rightarrow> HelError \<times> Universe" where
  "helCloseDescriptor u handle =
     (case detachDescriptor u handle of
        (None, u') \<Rightarrow> (IllegalHandle, u')
      | (Some d, u') \<Rightarrow> (Ok, u'))"

text \<open>An operation that succeeds on whatever descriptors it is given.\<close>

definition sample_operation :: "AnyDescriptor list \<Rightarrow> HelError" where
  "sample_operation ds = Ok"

section \<open>Channels and bi-directional pipes\<close>

text \<open>
  Modelled from the spec: the sources at hand declare \<open>Channel\<close>, \<open>BiDirectionPipe\<close> and
  the two endpoint descriptors but do not contain their member functions. A channel holds
  two FIFOs, the pending messages (sent, not yet matched) and the pending receives.
\<close>

record Message =
  msgPayload :: "byte list"
  msgRequest :: int64_t
  msgSequence :: int64_t

record Receive =
  recvHub :: Handle
  recvBuffer :: uintptr_t
  recvMaxLength :: nat
  recvFilterRequest :: int64_t
  recvFilterSequence :: int64_t
  recvSubmitInfo :: SubmitInfo

record Channel =
  pendingMessages :: "Message list"
  pendingReceives :: "Receive list"

definition Channel_new :: Channel where
  "Channel_new = \<lparr> pendingMessages = [], pendingReceives = [] \<rparr>"

text \<open>
  Modelled from the spec: the event layout \<open>(type, error, async_id, submit_function,
  submit_object, length, msg_request, msg_seq, handle)\<close>; unused fields are zero.
\<close>

datatype EventType = RecvStringEvent | AcceptEvent | ConnectEvent | IrqEvent

record Event =
  evType :: EventType
  evError :: HelError
  evAsyncId :: int64_t
  evSubmitFunction :: uintptr_t
  evSubmitObject :: uintptr_t
  evLength :: nat
  evMsgRequest :: int64_t
  evMsgSequence :: int64_t
  evHandle :: Handle

text \<open>
  What a match does: the bytes copied into the receiver's user buffer and the completion
  event posted to the receiver's event hub.
\<close>

record Delivery =
  dHub :: Handle
  dEvent :: Event
  dBuffer :: uintptr_t
  dBytes :: "byte list"

text \<open>
  Modelled from the spec: the matching rule. A send record \<open>(req_s, seq_s)\<close> matches a
  receive filter \<open>(req_r, seq_r)\<close> when both filter values are either wildcard or equal.
  The wildcard is \<open>-1\<close>, the filter value of the pipe echo scenario.
\<close>

definition wildcard :: int64_t where
  "wildcard = - 1"

definition matches :: "Message \<Rightarrow> Receive \<Rightarrow> bool" where
  "matches m r \<longleftrightarrow>
     (recvFilterRequest r = wildcard \<or> recvFilterRequest r = msgRequest m) \<and>
     (recvFilterSequence r = wildcard \<or> recvFilterSequence r = msgSequence m)"

text \<open>
  Modelled from the spec: a match copies the payload into the receiver's user buffer and
  posts a completion event (status OK, length, \<open>msg_request\<close>, \<open>msg_seq\<close>) to the
  receiver's hub. The spec names the error \<open>BufferTooSmall\<close> and no more; here a receive
  buffer shorter than the message gets a completion with that error and no bytes.
\<close>

definition completion :: "Message \<Rightarrow> Receive \<Rightarrow> Delivery" where
  "completion m r =
     (if length (msgPayload m) \<le> recvMaxLength r
      then \<lparr> dHub = recvHub r,
             dEvent = \<lparr> evType = RecvStringEvent, evError = Ok,
                        evAsyncId = asyncId (recvSubmitInfo r),
                        evSubmitFunction = submitFunction (recvSubmitInfo r),
                        evSubmitObject = submitObject (recvSubmitInfo r),
                        evLength = length (msgPayload m),
                        evMsgRequest = msgRequest m, evMsgSequence = msgSequence m,
                        evHandle = 0 \<rparr>,
             dBuffer = recvBuffer r, dBytes = msgPayload m \<rparr>
      else \<lparr> dHub = recvHub r,
             dEvent = \<lparr> evType = RecvStringEvent, evError = BufferTooSmall,
                        evAsyncId = asyncId (recvSubmitInfo r),
                        evSubmitFunction = submitFunction (recvSubmitInfo r),
                        evSubmitObject = submitObject (recvSubmitInfo r),
                        evLength = 0, evMsgRequest = 0, evMsgSequence = 0,
                        evHandle = 0 \<rparr>,
             dBuffer = recvBuffer r, dBytes = [] \<rparr>)"

text \<open>
  Modelled from the spec: on send, if a waiting receive matches (the one enqueued first
  wins), complete it and drop the receive record; otherwise enqueue the message.
\<close>

definition Channel_sendString :: "Channel \<Rightarrow> Message \<Rightarrow> Channel \<times> Delivery list" where
  "Channel_sendString ch m =
     (case List.extract (matches m) (pendingReceives ch) of
        Some (before, r, after) \<Rightarrow>
          (ch\<lparr> pendingReceives := before @ after \<rparr>, [completion m r])
      | None \<Rightarrow> (ch\<lparr> pendingMessages := pendingMessages ch @ [m] \<rparr>, []))"

text \<open>
  Modelled from the spec: on a receive submission, if a pending message matches (the one
  enqueued first wins), complete at once and take the message off the queue; otherwise
  enqueue the receive record.
\<close>

definition Channel_submitRecvString :: "Channel \<Rightarrow> Receive \<Rightarrow> Channel \<times> Delivery list" where
  "Channel_submitRecvString ch r =
     (case List.extract (\<lambda>m. matches m r) (pendingMessages ch) of
        Some (before, m, after) \<Rightarrow>
          (ch\<lparr> pendingMessages := before @ after \<rparr>, [completion m r])
      | None \<Rightarrow> (ch\<lparr> pendingReceives := pendingReceives ch @ [r] \<rparr>, []))"

datatype channel_call = Send Message | SubmitRecv Receive

fun channel_step :: "Channel \<Rightarrow> channel_call \<Rightarrow> Channel \<times> Delivery list" where
  "channel_step ch (Send m) = Channel_sendString ch m"
| "channel_step ch (SubmitRecv r) = Channel_submitRecvString ch r"

text \<open>An interleaving of sends and receive submissions, and the completions in order.\<close>

fun channel_run :: "Channel \<Rightarrow> channel_call list \<Rightarrow> Channel \<times> Delivery list" where
  "channel_run ch [] = (ch, [])"
| "channel_run ch (c # cs) =
     (case channel_step ch c of (ch1, ds1) \<Rightarrow>
        (case channel_run ch1 cs of (ch2, ds2) \<Rightarrow> (ch2, ds1 @ ds2)))"

fun sent_messages :: "channel_call list \<Rightarrow> Message list" where
  "sent_messages [] = []"
| "sent_messages (Send m # cs) = m # sent_messages cs"
| "sent_messages (SubmitRecv _ # cs) = sent_messages cs"

fun submitted_receives :: "channel_call list \<Rightarrow> Receive list" where
  "submitted_receives [] = []"
| "submitted_receives (Send _ # cs) = submitted_receives cs"
| "submitted_receives (SubmitRecv r # cs) = r # submitted_receives cs"

definition all_match :: "Message list \<Rightarrow> Receive list \<Rightarrow> bool" where
  "all_match ms rs \<longleftrightarrow> list_all (\<lambda>m. list_all (matches m) rs) ms"

record BiDirectionPipe =
  firstChannel :: Channel
  secondChannel :: Channel

definition BiDirectionPipe_new :: BiDirectionPipe where
  "BiDirectionPipe_new = \<lparr> firstChannel = Channel_new, secondChannel = Channel_new \<rparr>"

text \<open>
  Modelled from the spec: the member functions of the endpoint descriptors are not part of
  the sources at hand; their class declarations carry the comments "Reads from the first
  channel, writes to the second" (\<open>BiDirectionFirstDescriptor\<close>) and "Reads from the
  second channel, writes to the first" (\<open>BiDirectionSecondDescriptor\<close>), which is what
  the spec says. The pipe the descriptor points to is passed in and returned.
\<close>

definition BiDirectionFirst_sendString ::
  "BiDirectionPipe \<Rightarrow> Message \<Rightarrow> BiDirectionPipe \<times> Delivery list" where
  "BiDirectionFirst_sendString p m =
     (case Channel_sendString (secondChannel p) m of
        (ch, ds) \<Rightarrow> (p\<lparr> secondChannel := ch \<rparr>, ds))"

definition BiDirectionFirst_recvString ::
  "BiDirectionPipe \<Rightarrow> Receive \<Rightarrow> BiDirectionPipe \<times> Delivery list" where
  "BiDirectionFirst_recvString p r =
     (case Channel_submitRecvString (firstChannel p) r of
        (ch, ds) \<Rightarrow> (p\<lparr> firstChannel := ch \<rparr>, ds))"

definition BiDirectionSecond_sendString ::
  "BiDirectionPipe \<Rightarrow> Message \<Rightarrow> BiDirectionPipe \<times> Delivery list" where
  "BiDirectionSecond_sendString p m =
     (case Channel_sendString (firstChannel p) m of
        (ch, ds) \<Rightarrow> (p\<lparr> firstChannel := ch \<rparr>, ds))"

definition BiDirectionSecond_recvString ::
  "BiDirectionPipe \<Rightarrow> Receive \<Rightarrow> BiDirectionPipe \<times> Delivery list" where
  "BiDirectionSecond_recvString p r =
     (case Channel_submitRecvString (secondChannel p) r of
        (ch, ds) \<Rightarrow> (p\<lparr> secondChannel := ch \<rparr>, ds))"

text \<open>The two endpoints of a pipe, by the kind of descriptor that names them.\<close>

datatype Endpoint = FirstEnd | SecondEnd

fun peer :: "Endpoint \<Rightarrow> Endpoint" where
  "peer FirstEnd = SecondEnd"
| "peer SecondEnd = FirstEnd"

fun endpoint_sendString ::
  "Endpoint \<Rightarrow> BiDirectionPipe \<Rightarrow> Message \<Rightarrow> BiDirectionPipe \<times> Delivery list" where
  "endpoint_sendString FirstEnd p m = BiDirectionFirst_sendString p m"
| "endpoint_sendString SecondEnd p m = BiDirectionSecond_sendString p m"

fun endpoint_recvString ::
  "Endpoint \<Rightarrow> BiDirectionPipe \<Rightarrow> Receive \<Rightarrow> BiDirectionPipe \<times> Delivery list" where
  "endpoint_recvString FirstEnd p r = BiDirectionFirst_recvString p r"
| "endpoint_recvString SecondEnd p r = BiDirectionSecond_recvString p r"

text \<open>The channel an endpoint writes to.\<close>

fun send_channel :: "Endpoint \<Rightarrow> BiDirectionPipe \<Rightarrow> Channel" where
  "send_channel FirstEnd p = secondChannel p"
| "send_channel SecondEnd p = firstChannel p"

text \<open>
  Modelled from the spec: \<open>SendString(h, buf, len, msg_request, msg_seq)\<close> on a handle that
  names the endpoint \<open>e\<close> of pipe \<open>p\<close>. \<open>buf_in\<close> is what user memory holds from the address
  \<open>buf\<close> on; copying \<open>len\<close> bytes out of it into the kernel-owned message record fails with
  \<open>Fault\<close> when fewer are there.
\<close>

definition helSendString ::
  "Endpoint \<Rightarrow> BiDirectionPipe \<Rightarrow> byte list \<Rightarrow> nat \<Rightarrow> int64_t \<Rightarrow> int64_t
     \<Rightarrow> HelError \<times> BiDirectionPipe \<times> Delivery list" where
  "helSendString e p buf_in len msg_request msg_seq =
     (if length buf_in < len then (Fault, p, [])
      else (case endpoint_sendString e p
                   \<lparr> msgPayload = take len buf_in, msgRequest = msg_request,
                     msgSequence = msg_seq \<rparr> of
              (p', ds) \<Rightarrow> (Ok, p', ds)))"

text \<open>
  Modelled from the spec: \<open>SubmitRecvString(h, hub_h, buf, len, filter_req, filter_seq,
  async_id, sub_fn, sub_obj)\<close> on a handle that names the endpoint \<open>e\<close> of pipe \<open>p\<close>.
\<close>

definition helSubmitRecvString ::
  "Endpoint \<Rightarrow> BiDirectionPipe \<Rightarrow> Handle \<Rightarrow> uintptr_t \<Rightarrow> nat \<Rightarrow> int64_t \<Rightarrow> int64_t
     \<Rightarrow> int64_t \<Rightarrow> uintptr_t \<Rightarrow> uintptr_t \<Rightarrow> HelError \<times> BiDirectionPipe \<times> Delivery list" where
  "helSubmitRecvString e p hub buf len filter_request filter_seq async_id
       submit_function submit_object =
     (case endpoint_recvString e p
             \<lparr> recvHub = hub, recvBuffer = buf, recvMaxLength = len,
               recvFilterRequest = filter_request, recvFilterSequence = filter_seq,
               recvSubmitInfo = SubmitInfo_init async_id submit_function submit_object \<rparr> of
        (p', ds) \<Rightarrow> (Ok, p', ds))"

section \<open>The scheduler and the interrupt entry\<close>

text \<open>
  Modelled from the spec: \<open>schedule()\<close>, the ready queue and the thread states are not part
  of the sources at hand. A single FIFO ready queue; entered from the timer interrupt,
  \<open>schedule()\<close> places the previously Running thread back onto the ready queue as Ready
  (\<open>preempt_current\<close>) before it picks and pops the head of the queue (\<open>pick_next\<close>). With
  an empty queue it halts until a wake-up (\<open>Idle\<close>); otherwise it makes the chosen thread
  current and trap-returns to user mode in it (\<open>SwitchTo\<close>). It does not return to its
  caller.
\<close>

datatype ThreadState = Ready | Running | Blocked | Exited

type_synonym thread_ref = nat

record Scheduler =
  currentThread :: "thread_ref option"
  scheduleQueue :: "thread_ref list"
  threadState :: "thread_ref \<Rightarrow> ThreadState"

datatype kernel_exit = SwitchTo thread_ref | Idle | FullReturn

definition preempt_current :: "Scheduler \<Rightarrow> Scheduler" where
  "preempt_current s =
     (case currentThread s of
        None \<Rightarrow> s
      | Some t \<Rightarrow>
          if threadState s t = Running
          then s\<lparr> currentThread := None, scheduleQueue := scheduleQueue s @ [t],
                  threadState := (threadState s)(t := Ready) \<rparr>
          else s\<lparr> currentThread := None \<rparr>)"

definition pick_next :: "Scheduler \<Rightarrow> Scheduler \<times> kernel_exit" where
  "pick_next s =
     (case scheduleQueue s of
        [] \<Rightarrow> (s, Idle)
      | t # rest \<Rightarrow>
          (s\<lparr> currentThread := Some t, scheduleQueue := rest,
               threadState := (threadState s)(t := Running) \<rparr>, SwitchTo t))"

definition schedule :: "Scheduler \<Rightarrow> Scheduler \<times> kernel_exit" where
  "schedule s = pick_next (preempt_current s)"

text \<open>
  \<open>thorIrq(int irq)\<close>: acknowledge the controller, fire the relay of the vector, then
  \<open>schedule()\<close> for vector 0 and \<open>thorRtFullReturn()\<close> for every other vector. Neither
  returns, so the assertion that ends the function is not reached. \<open>IrqRelay::fire\<close> is
  not part of the sources at hand: what firing the relay of a vector does to the scheduler
  state (a waiter it wakes becomes Ready) is the parameter \<open>fire\<close>;
  \<open>thorRtFullReturn()\<close> resumes the interrupted context. The result is the platform and
  relay actions in order, the scheduler state and the way the kernel is left.
\<close>

datatype irq_action = AcknowledgeIrq int | RelayFire int

definition thorIrq ::
  "(int \<Rightarrow> Scheduler \<Rightarrow> Scheduler) \<Rightarrow> Scheduler \<Rightarrow> int
     \<Rightarrow> irq_action list \<times> Scheduler \<times> kernel_exit" where
  "thorIrq fire s irq =
     (let actions = [AcknowledgeIrq irq, RelayFire irq];
          s1 = fire irq s
      in if irq = 0
         then (case schedule s1 of (s', exit) \<Rightarrow> (actions, s', exit))
         else (actions, s1, FullReturn))"

text \<open>A relay whose waiter is thread 9, Blocked until vector 3 fires.\<close>

definition sample_fire :: "int \<Rightarrow> Scheduler \<Rightarrow> Scheduler" where
  "sample_fire irq s =
     (if irq = 3 \<and> threadState s 9 = Blocked
      then s\<lparr> scheduleQueue := scheduleQueue s @ [9],
              threadState := (threadState s)(9 := Ready) \<rparr>
      else s)"

section \<open>The syscall dispatcher\<close>

text \<open>
  The labels of the \<open>switch\<close> in \<open>thorSyscall\<close>, in the order of the source. Their numeric
  values are declared in \<open>hel.h\<close>, which is not part of the sources at hand; the
  dispatcher takes them as the parameter \<open>code\<close>.
\<close>

datatype HelCall =
    kHelCallLog | kHelCallPanic | kHelCallCloseDescriptor
  | kHelCallAllocateMemory | kHelCallMapMemory | kHelCallMemoryInfo
  | kHelCallCreateThread | kHelCallExitThisThread
  | kHelCallCreateEventHub | kHelCallWaitForEvents
  | kHelCallCreateBiDirectionPipe | kHelCallSendString | kHelCallSubmitRecvString
  | kHelCallCreateServer | kHelCallSubmitAccept | kHelCallSubmitConnect
  | kHelCallAccessIrq | kHelCallSubmitWaitForIrq
  | kHelCallAccessIo | kHelCallEnableIo

text \<open>
  The statements of the case bodies. \<open>Call f args\<close> is \<open>HelError error = f(...)\<close> with
  the numbers of the syscall arguments passed on; it returns. \<open>ReturnSyscall ws\<close> is
  \<open>thorRtReturnSyscall1/2/3\<close> with the result words \<open>ws\<close>; \<open>Schedule\<close> is
  \<open>schedule()\<close>; \<open>LoopForever\<close> is \<open>while(true) { }\<close>; \<open>AssertFail msg\<close> is
  \<open>ASSERT(!"msg")\<close>, whose condition is always false.
\<close>

datatype stmt =
    Call string "nat list"
  | ReturnSyscall "string list"
  | Schedule
  | LoopForever
  | AssertFail string

text \<open>
  Modelled from the spec: the trap-return helpers, \<open>schedule()\<close> and the \<open>ASSERT\<close>
  macro are not part of the sources at hand. The dispatcher "returns 1-3 result words
  through the trap-return helpers", which resume the calling thread in user mode;
  \<open>schedule()\<close> trap-returns into the thread it picks; a failed assertion logs
  diagnostics and halts the CPU. None of them comes back to the statement after it.
\<close>

datatype outcome =
    TrapReturn "string list"
  | Scheduled
  | Hang
  | Fatal string
  | ReturnedToCaller

text \<open>
  Running a statement sequence: the calls made, in order, and how control leaves. Only
  a sequence that runs to its end returns to the caller.
\<close>

fun exec :: "stmt list \<Rightarrow> (string \<times> nat list) list \<times> outcome" where
  "exec [] = ([], ReturnedToCaller)"
| "exec (Call f args # ss) = (case exec ss of (calls, out) \<Rightarrow> ((f, args) # calls, out))"
| "exec (ReturnSyscall ws # ss) = ([], TrapReturn ws)"
| "exec (Schedule # ss) = ([], Scheduled)"
| "exec (LoopForever # ss) = ([], Hang)"
| "exec (AssertFail msg # ss) = ([], Fatal msg)"

definition thorSyscall_cases :: "(HelCall \<times> stmt list) list" where
  "thorSyscall_cases =
   [(kHelCallLog,
       [Call ''helLog'' [0, 1], ReturnSyscall [''error'']]),
    (kHelCallPanic,
       [Call ''helLog'' [0, 1], LoopForever]),
    (kHelCallCloseDescriptor,
       [Call ''helCloseDescriptor'' [0], ReturnSyscall [''error'']]),
    (kHelCallAllocateMemory,
       [Call ''helAllocateMemory'' [0], ReturnSyscall [''error'', ''handle'']]),
    (kHelCallMapMemory,
       [Call ''helMapMemory'' [0, 1, 2], ReturnSyscall [''error'', ''actual_pointer'']]),
    (kHelCallMemoryInfo,
       [Call ''helMemoryInfo'' [0], ReturnSyscall [''error'', ''size'']]),
    (kHelCallCreateThread,
       [Call ''helCreateThread'' [0, 1, 2], ReturnSyscall [''error'', ''handle'']]),
    (kHelCallExitThisThread,
       [Call ''helExitThisThread'' [], Schedule]),
    (kHelCallCreateEventHub,
       [Call ''helCreateEventHub'' [], ReturnSyscall [''error'', ''handle'']]),
    (kHelCallWaitForEvents,
       [Call ''helWaitForEvents'' [0, 1, 2, 3], ReturnSyscall [''error'', ''num_items'']]),
    (kHelCallCreateBiDirectionPipe,
       [Call ''helCreateBiDirectionPipe'' [],
        ReturnSyscall [''error'', ''first'', ''second'']]),
    (kHelCallSendString,
       [Call ''helSendString'' [0, 1, 2, 3, 4], ReturnSyscall [''error'']]),
    (kHelCallSubmitRecvString,
       [Call ''helSubmitRecvString'' [0, 1, 2, 3, 4, 5, 6, 7, 8], ReturnSyscall [''error'']]),
    (kHelCallCreateServer,
       [Call ''helCreateServer'' [],
        ReturnSyscall [''error'', ''server_handle'', ''client_handle'']]),
    (kHelCallSubmitAccept,
       [Call ''helSubmitAccept'' [0, 1, 2, 3, 4], ReturnSyscall [''error'']]),
    (kHelCallSubmitConnect,
       [Call ''helSubmitConnect'' [0, 1, 2, 3, 4], ReturnSyscall [''error'']]),
    (kHelCallAccessIrq,
       [Call ''helAccessIrq'' [0], ReturnSyscall [''error'', ''handle'']]),
    (kHelCallSubmitWaitForIrq,
       [Call ''helSubmitWaitForIrq'' [0, 1, 2, 3, 4], ReturnSyscall [''error'']]),
    (kHelCallAccessIo,
       [Call ''helAccessIo'' [0, 1], ReturnSyscall [''error'', ''handle'']]),
    (kHelCallEnableIo,
       [Call ''helEnableIo'' [0], ReturnSyscall [''error'']])]"

text \<open>\<open>default: ASSERT(!"Illegal syscall");\<close> and the statement after the \<open>switch\<close>.\<close>

definition thorSyscall_default :: "stmt list" where
  "thorSyscall_default = [AssertFail ''Illegal syscall'']"

definition thorSyscall_end :: "stmt list" where
  "thorSyscall_end = [AssertFail ''No return at end of thorSyscall()'']"

text \<open>
  A \<open>switch\<close> jumps to the first label equal to the index, or to \<open>default\<close> (here the last
  label) when there is none, and runs on from there: the case bodies have no \<open>break\<close>, so
  the statements that follow the entry point are those of the entered case, of every later
  case, of \<open>default\<close> and of the rest of the function.
\<close>

definition switch_from :: "(HelCall \<Rightarrow> Word) \<Rightarrow> Word \<Rightarrow> stmt list" where
  "switch_from code index =
     concat (map snd (dropWhile (\<lambda>(label, body). code label \<noteq> index) thorSyscall_cases))
     @ thorSyscall_default"

definition thorSyscall :: "(HelCall \<Rightarrow> Word) \<Rightarrow> Word \<Rightarrow> (string \<times> nat list) list \<times> outcome" where
  "thorSyscall code index = exec (switch_from code index @ thorSyscall_end)"

text \<open>The statements of one case alone.\<close>

definition case_body :: "HelCall \<Rightarrow> stmt list" where
  "case_body label = (case map_of thorSyscall_cases label of Some body \<Rightarrow> body | None \<Rightarrow> [])"

fun no_return :: "outcome \<Rightarrow> bool" where
  "no_return (TrapReturn _) = True"
| "no_return Scheduled = True"
| "no_return Hang = True"
| "no_return (Fatal _) = False"
| "no_return ReturnedToCaller = False"

text \<open>A numbering of the labels, distinct for distinct labels, to run the dispatcher on.\<close>

fun sample_code :: "HelCall \<Rightarrow> Word" where
  "sample_code kHelCallLog = 1"
| "sample_code kHelCallPanic = 2"
| "sample_code kHelCallCloseDescriptor = 3"
| "sample_code kHelCallAllocateMemory = 4"
| "sample_code kHelCallMapMemory = 5"
| "sample_code kHelCallMemoryInfo = 6"
| "sample_code kHelCallCreateThread = 7"
| "sample_code kHelCallExitThisThread = 8"
| "sample_code kHelCallCreateEventHub = 9"
| "sample_code kHelCallWaitForEvents = 10"
| "sample_code kHelCallCreateBiDirectionPipe = 11"
| "sample_code kHelCallSendString = 12"
| "sample_code kHelCallSubmitRecvString = 13"
| "sample_code kHelCallCreateServer = 14"
| "sample_code kHelCallSubmitAccept = 15"
| "sample_code kHelCallSubmitConnect = 16"
| "sample_code kHelCallAccessIrq = 17"
| "sample_code kHelCallSubmitWaitForIrq = 18"
| "sample_code kHelCallAccessIo = 19"
| "sample_code kHelCallEnableIo = 20"

section \<open>Properties of the async id counter\<close>

lemma allocAsyncId_calls_state:
  "snd (allocAsyncId_calls n s) = s + of_nat n"
  by (induction n arbitrary: s)
     (simp_all add: allocAsyncId_def fetchInc_def case_prod_unfold)

lemma allocAsyncId_calls_ids:
  "fst (allocAsyncId_calls n s) = map (\<lambda>k. s + of_nat k) [0..<n]"
proof (induction n arbitrary: s)
  case 0
  show ?case by simp
next
  case (Suc n)
  have "map (\<lambda>k. s + of_nat k) [0..<Suc n] = s # map (\<lambda>k. (s + 1) + of_nat k) [0..<n]"
    by (simp add: upt_rec[of 0] map_Suc_upt[symmetric] add.assoc del: upt_Suc)
  with Suc[of "s + 1"] show ?case
    by (simp add: allocAsyncId_def fetchInc_def case_prod_unfold del: upt_Suc)
qed

lemma issued_async_id_eq: "issued_async_id k = 1 + of_nat k"
  by (simp add: issued_async_id_def allocAsyncId_calls_state allocAsyncId_def
      fetchInc_def nextAsyncId_boot_def)

lemma sint_issued_async_id:
  assumes "k < 2 ^ 63 - 1"
  shows "sint (issued_async_id k) = 1 + int k"
proof -
  have "issued_async_id k = (word_of_int (1 + int k) :: 64 word)"
    by (simp add: issued_async_id_eq)
  moreover have "sint (word_of_int (1 + int k) :: 64 word)
      = signed_take_bit (LENGTH(64) - 1) (1 + int k)"
    by (rule sint_sbintrunc')
  moreover have "signed_take_bit (LENGTH(64) - 1) (1 + int k) = 1 + int k"
    using assms by (simp add: signed_take_bit_int_eq_self)
  ultimately show ?thesis by (simp only:)
qed

lemma unat_issued_async_id:
  assumes "k < 2 ^ 64 - 1"
  shows "unat (issued_async_id k) = 1 + k"
  using assms by (simp add: issued_async_id_eq unat_word_ariths unat_of_nat)

text \<open>
  C4, as the code has it: the \<open>int64_t\<close> counter wraps after \<open>INT64_MAX\<close>. Among the
  first \<open>2^63 - 1\<close> calls since boot (the ids \<open>1 .. INT64_MAX\<close>), every call returns a
  value strictly greater, as a signed 64-bit integer, than every earlier call, and so
  no two of these calls return the same id.
\<close>

theorem allocAsyncId_increasing_until_wrap:
  assumes "i < j" and "j < 2 ^ 63 - 1"
  shows "sint (issued_async_id i) < sint (issued_async_id j)
       \<and> issued_async_id i \<noteq> issued_async_id j"
proof -
  have "sint (issued_async_id i) < sint (issued_async_id j)"
    using assms by (simp add: sint_issued_async_id)
  then show ?thesis by auto
qed

theorem allocAsyncId_increasing_until_wrap_witness:
  "(2::nat) < 5 \<and> (5::nat) < 2 ^ 63 - 1
   \<and> sint (issued_async_id 2) < sint (issued_async_id 5)
   \<and> issued_async_id 2 \<noteq> issued_async_id 5"
  using allocAsyncId_increasing_until_wrap [of 2 5] by simp

text \<open>
  C4 as stated fails: the call that follows \<open>2^63 - 1\<close> earlier calls returns
  \<open>INT64_MIN\<close>, which is smaller than the id \<open>INT64_MAX\<close> returned just before it.
\<close>

theorem allocAsyncId_wraps_counterexample:
  "sint (issued_async_id 9223372036854775807) < sint (issued_async_id 9223372036854775806)"
  by (simp add: issued_async_id_eq)

text \<open>
  C10, as the code has it: none of the first \<open>2^64 - 1\<close> calls since boot returns 0, so
  each of these ids differs from the async id of a default-constructed \<open>SubmitInfo\<close>.
\<close>

theorem allocAsyncId_nonzero_until_wrap:
  assumes "k < 2 ^ 64 - 1"
  shows "issued_async_id k \<noteq> 0 \<and> issued_async_id k \<noteq> asyncId SubmitInfo_default"
proof -
  have "unat (issued_async_id k) \<noteq> 0"
    using assms by (simp add: unat_issued_async_id)
  then have "issued_async_id k \<noteq> 0" by auto
  then show ?thesis by (simp add: SubmitInfo_default_def)
qed

theorem allocAsyncId_nonzero_until_wrap_witness:
  "(0::nat) < 2 ^ 64 - 1 \<and> issued_async_id 0 \<noteq> 0
   \<and> issued_async_id 0 \<noteq> asyncId SubmitInfo_default"
  using allocAsyncId_nonzero_until_wrap [of 0] by simp

text \<open>
  C10 as stated fails: after \<open>2^64 - 1\<close> calls the counter has wrapped to 0, and the next
  call returns 0, the async id of a default-constructed \<open>SubmitInfo\<close>.
\<close>

theorem allocAsyncId_zero_counterexample:
  "issued_async_id 18446744073709551615 = asyncId SubmitInfo_default"
  by (simp add: issued_async_id_eq SubmitInfo_default_def)

section \<open>Properties of the Universe\<close>


text \<open>\<open>live\<close> says what its description says.\<close>

lemma live_iff:
  "live evs h d \<longleftrightarrow>
     (\<exists>pre post. evs = pre @ Attached h d # post \<and> \<not> list_ex (detaches h) post)"
proof (induction evs h d rule: live.induct)
  case (1 h d)
  show ?case by simp
next
  case (2 h' d' evs h d)
  show ?case
  proof
    assume "live (Attached h' d' # evs) h d"
    then consider "live evs h d" | "h' = h \<and> d' = d \<and> \<not> list_ex (detaches h) evs"
      by auto
    then show "\<exists>pre post. Attached h' d' # evs = pre @ Attached h d # post
                 \<and> \<not> list_ex (detaches h) post"
    proof cases
      case 1
      with 2 obtain pre post where "evs = pre @ Attached h d # post"
        and "\<not> list_ex (detaches h) post" by blast
      then have "Attached h' d' # evs = (Attached h' d' # pre) @ Attached h d # post"
        by simp
      with \<open>\<not> list_ex (detaches h) post\<close> show ?thesis by blast
    next
      case 2
      then have "Attached h' d' # evs = [] @ Attached h d # evs" by simp
      with 2 show ?thesis by blast
    qed
  next
    assume "\<exists>pre post. Attached h' d' # evs = pre @ Attached h d # post
                 \<and> \<not> list_ex (detaches h) post"
    then obtain pre post where e: "Attached h' d' # evs = pre @ Attached h d # post"
      and n: "\<not> list_ex (detaches h) post" by blast
    show "live (Attached h' d' # evs) h d"
    proof (cases pre)
      case Nil
      with e n show ?thesis by simp
    next
      case (Cons x pre')
      with e have "evs = pre' @ Attached h d # post" by simp
      with n 2 have "live evs h d" by blast
      then show ?thesis by simp
    qed
  qed
next
  case (3 h' r evs h d)
  show ?case
  proof
    assume "live (Detached h' r # evs) h d"
    with 3 obtain pre post where "evs = pre @ Attached h d # post"
      and n: "\<not> list_ex (detaches h) post" by auto
    then have "Detached h' r # evs = (Detached h' r # pre) @ Attached h d # post" by simp
    with n show "\<exists>pre post. Detached h' r # evs = pre @ Attached h d # post
                 \<and> \<not> list_ex (detaches h) post" by blast
  next
    assume "\<exists>pre post. Detached h' r # evs = pre @ Attached h d # post
                 \<and> \<not> list_ex (detaches h) post"
    then obtain pre post where e: "Detached h' r # evs = pre @ Attached h d # post"
      and n: "\<not> list_ex (detaches h) post" by blast
    from e obtain pre' where "evs = pre' @ Attached h d # post"
      by (cases pre) auto
    with n 3 show "live (Detached h' r # evs) h d" by auto
  qed
qed


lemma universe_run_snoc:
  "universe_run u (calls @ [c]) = universe_step (universe_run u calls) c"
  by (simp add: universe_run_def)

lemma universe_run_Nil: "universe_run u [] = (u, [])"
  by (simp add: universe_run_def)

lemma issued_handles_append:
  "issued_handles (xs @ ys) = issued_handles xs @ issued_handles ys"
  by (induction xs rule: issued_handles.induct) simp_all

lemma nextHandle_run:
  "nextHandle (fst (universe_run u calls)) = nextHandle u + of_nat (num_attach calls)"
proof (induction calls rule: rev_induct)
  case Nil
  show ?case by (simp add: universe_run_Nil num_attach_def)
next
  case (snoc c calls)
  obtain u' evs where r: "universe_run u calls = (u', evs)" by (cases "universe_run u calls")
  with snoc show ?case
    by (cases c) (simp_all add: universe_run_snoc num_attach_def attachDescriptor_def detachDescriptor_def Let_def)
qed

lemma issued_run:
  "issued_handles (snd (universe_run u calls)) = map (\<lambda>k. nextHandle u + of_nat k) [0..<num_attach calls]"
proof (induction calls rule: rev_induct)
  case Nil
  show ?case by (simp add: universe_run_Nil num_attach_def)
next
  case (snoc c calls)
  obtain u' evs where r: "universe_run u calls = (u', evs)" by (cases "universe_run u calls")
  have nh: "nextHandle u' = nextHandle u + of_nat (num_attach calls)"
    using nextHandle_run[of u calls] r by simp
  from snoc r nh show ?case
    by (cases c) (simp_all add: universe_run_snoc num_attach_def attachDescriptor_def detachDescriptor_def Let_def issued_handles_append)
qed


lemma live_snoc_Detached:
  "live (evs @ [Detached h r]) h' d \<longleftrightarrow> h' \<noteq> h \<and> live evs h' d"
proof
  assume "live (evs @ [Detached h r]) h' d"
  then obtain pre post where e: "evs @ [Detached h r] = pre @ Attached h' d # post"
    and n: "\<not> list_ex (detaches h') post"
    unfolding live_iff by blast
  show "h' \<noteq> h \<and> live evs h' d"
  proof (cases post rule: rev_cases)
    case Nil
    with e show ?thesis by simp
  next
    case (snoc post' x)
    with e have "evs = pre @ Attached h' d # post'" and "x = Detached h r" by simp_all
    with n snoc show ?thesis unfolding live_iff by auto
  qed
next
  assume a: "h' \<noteq> h \<and> live evs h' d"
  then obtain pre post where e: "evs = pre @ Attached h' d # post"
    and n: "\<not> list_ex (detaches h') post"
    unfolding live_iff by blast
  have "evs @ [Detached h r] = pre @ Attached h' d # (post @ [Detached h r])"
    using e by simp
  moreover have "\<not> list_ex (detaches h') (post @ [Detached h r])"
    using n a by simp
  ultimately show "live (evs @ [Detached h r]) h' d"
    unfolding live_iff by blast
qed

lemma live_snoc_Attached:
  "live (evs @ [Attached h d]) h' d' \<longleftrightarrow> (h' = h \<and> d' = d) \<or> live evs h' d'"
proof
  assume "live (evs @ [Attached h d]) h' d'"
  then obtain pre post where e: "evs @ [Attached h d] = pre @ Attached h' d' # post"
    and n: "\<not> list_ex (detaches h') post"
    unfolding live_iff by blast
  show "(h' = h \<and> d' = d) \<or> live evs h' d'"
  proof (cases post rule: rev_cases)
    case Nil
    with e show ?thesis by simp
  next
    case (snoc post' x)
    with e have "evs = pre @ Attached h' d' # post'" by simp
    with n snoc show ?thesis unfolding live_iff by auto
  qed
next
  assume a: "(h' = h \<and> d' = d) \<or> live evs h' d'"
  then show "live (evs @ [Attached h d]) h' d'"
  proof
    assume "h' = h \<and> d' = d"
    then have "evs @ [Attached h d] = evs @ Attached h' d' # []" by simp
    then show ?thesis unfolding live_iff
      by (intro exI[of _ evs] exI[of _ "[]"]) simp
  next
    assume "live evs h' d'"
    then obtain pre post where e: "evs = pre @ Attached h' d' # post"
      and n: "\<not> list_ex (detaches h') post"
      unfolding live_iff by blast
    have "evs @ [Attached h d] = pre @ Attached h' d' # (post @ [Attached h d])"
      using e by simp
    moreover have "\<not> list_ex (detaches h') (post @ [Attached h d])"
      using n by simp
    ultimately show ?thesis unfolding live_iff by blast
  qed
qed

lemma live_issued: "live evs h d \<Longrightarrow> h \<in> set (issued_handles evs)"
  by (auto simp: live_iff issued_handles_append)

lemma universe_inv_new: "universe_inv Universe_new []"
  by (simp add: universe_inv_def Universe_new_def)

lemma universe_inv_detach:
  assumes "universe_inv u evs"
  shows "universe_inv (snd (detachDescriptor u h)) (evs @ [Detached h (fst (detachDescriptor u h))])"
  using assms
  by (auto simp: universe_inv_def detachDescriptor_def live_snoc_Detached issued_handles_append)

lemma universe_inv_attach:
  assumes "universe_inv u evs" and "unat (nextHandle u) < 2 ^ 64 - 1"
  shows "universe_inv (snd (attachDescriptor u d)) (evs @ [Attached (fst (attachDescriptor u d)) d])"
proof -
  have nx: "unat (nextHandle u + 1) = unat (nextHandle u) + 1"
    using assms(2) by (simp add: unat_word_ariths)
  have fresh: "nextHandle u \<notin> set (issued_handles evs)"
    using assms(1) by (auto simp: universe_inv_def)
  then have nl: "\<And>d'. \<not> live evs (nextHandle u) d'"
    by (auto dest: live_issued)
  have nz: "nextHandle u \<noteq> 0"
    using assms(1) by (auto simp: universe_inv_def)
  show ?thesis
    using assms(1) nx fresh nl nz
    by (auto simp: universe_inv_def attachDescriptor_def Let_def live_snoc_Attached issued_handles_append)
qed


lemma universe_run_inv:
  assumes "num_attach calls < 2 ^ 64 - 1"
  shows "universe_inv (fst (universe_run Universe_new calls)) (snd (universe_run Universe_new calls))
       \<and> unat (nextHandle (fst (universe_run Universe_new calls))) = 1 + num_attach calls"
  using assms
proof (induction calls rule: rev_induct)
  case Nil
  have "unat (nextHandle Universe_new) = 1" by (simp add: Universe_new_def)
  then show ?case by (simp add: universe_run_Nil universe_inv_new num_attach_def)
next
  case (snoc c calls)
  obtain u evs where r: "universe_run Universe_new calls = (u, evs)"
    by (cases "universe_run Universe_new calls")
  have le: "num_attach calls \<le> num_attach (calls @ [c])"
    by (simp add: num_attach_def)
  with snoc have inv: "universe_inv u evs" and nh: "unat (nextHandle u) = 1 + num_attach calls"
    using r by simp_all
  show ?case
  proof (cases c)
    case (Attach d)
    then have b: "unat (nextHandle u) < 2 ^ 64 - 1"
      using snoc.prems nh by (simp add: num_attach_def)
    have "unat (nextHandle u + 1) = unat (nextHandle u) + 1"
      using b by (simp add: unat_word_ariths)
    with universe_inv_attach[OF inv b, of d] nh Attach r show ?thesis
      by (simp add: universe_run_snoc case_prod_unfold num_attach_def attachDescriptor_def Let_def)
  next
    case (Detach h)
    with universe_inv_detach[OF inv, of h] nh r show ?thesis
      by (simp add: universe_run_snoc case_prod_unfold num_attach_def detachDescriptor_def)
  qed
qed

lemma num_attach_append: "num_attach (xs @ ys) = num_attach xs + num_attach ys"
  by (simp add: num_attach_def)

text \<open>
  C1, as the code has it: \<open>_nextHandle\<close> is a \<open>uint64_t\<close> that wraps. For every sequence
  of attach and detach calls on a new Universe with fewer than \<open>2^64 - 1\<close> attach calls,
  the counter strictly increases at every attach and is unchanged by a detach, the
  handles returned are pairwise distinct and nonzero (so a detached handle is not issued
  again), and \<open>getDescriptor h\<close> returns \<open>d\<close> if and only if \<open>d\<close> was attached under \<open>h\<close>
  and \<open>h\<close> has not been detached since.
\<close>

theorem Universe_handles_until_wrap:
  assumes "num_attach calls < 2 ^ 64 - 1"
  shows "(\<forall>pre c post. calls = pre @ c # post \<longrightarrow>
            (if is_attach c
             then nextHandle (fst (universe_run Universe_new pre))
                  < nextHandle (fst (universe_run Universe_new (pre @ [c])))
             else nextHandle (fst (universe_run Universe_new pre))
                  = nextHandle (fst (universe_run Universe_new (pre @ [c])))))
       \<and> distinct (issued_handles (snd (universe_run Universe_new calls)))
       \<and> 0 \<notin> set (issued_handles (snd (universe_run Universe_new calls)))
       \<and> (\<forall>h d. getDescriptor (fst (universe_run Universe_new calls)) h = Some d
             \<longleftrightarrow> live (snd (universe_run Universe_new calls)) h d)"
proof -
  have mono: "\<And>pre c post. calls = pre @ c # post \<Longrightarrow>
            (if is_attach c
             then nextHandle (fst (universe_run Universe_new pre))
                  < nextHandle (fst (universe_run Universe_new (pre @ [c])))
             else nextHandle (fst (universe_run Universe_new pre))
                  = nextHandle (fst (universe_run Universe_new (pre @ [c]))))"
  proof -
    fix pre c post
    assume c: "calls = pre @ c # post"
    then have "num_attach (pre @ [c]) \<le> num_attach calls"
      by (simp add: num_attach_def)
    then have b2: "num_attach (pre @ [c]) < 2 ^ 64 - 1" using assms by simp
    then have b1: "num_attach pre < 2 ^ 64 - 1" by (simp add: num_attach_def)
    have u1: "unat (nextHandle (fst (universe_run Universe_new pre))) = 1 + num_attach pre"
      using universe_run_inv[OF b1] by simp
    have u2: "unat (nextHandle (fst (universe_run Universe_new (pre @ [c])))) = 1 + num_attach (pre @ [c])"
      using universe_run_inv[OF b2] by simp
    show "(if is_attach c
             then nextHandle (fst (universe_run Universe_new pre))
                  < nextHandle (fst (universe_run Universe_new (pre @ [c])))
             else nextHandle (fst (universe_run Universe_new pre))
                  = nextHandle (fst (universe_run Universe_new (pre @ [c]))))"
      using u1 u2 by (cases c) (simp_all add: word_less_nat_alt num_attach_def word_unat_eq_iff)
  qed
  from universe_run_inv[OF assms]
  have inv: "universe_inv (fst (universe_run Universe_new calls)) (snd (universe_run Universe_new calls))"
    by simp
  from mono inv show ?thesis
    unfolding universe_inv_def getDescriptor_def by blast
qed

theorem Universe_handles_until_wrap_witness:
  "num_attach [Attach (MemoryAccessDescriptor 7), Attach (BiDirectionFirstDescriptor 8), Detach 1] < 2 ^ 64 - 1
   \<and> distinct (issued_handles (snd (universe_run Universe_new
        [Attach (MemoryAccessDescriptor 7), Attach (BiDirectionFirstDescriptor 8), Detach 1])))
   \<and> 0 \<notin> set (issued_handles (snd (universe_run Universe_new
        [Attach (MemoryAccessDescriptor 7), Attach (BiDirectionFirstDescriptor 8), Detach 1])))
   \<and> nextHandle (fst (universe_run Universe_new [Attach (MemoryAccessDescriptor 7)]))
      < nextHandle (fst (universe_run Universe_new ([Attach (MemoryAccessDescriptor 7)] @ [Attach (BiDirectionFirstDescriptor 8)])))
   \<and> live (snd (universe_run Universe_new
        [Attach (MemoryAccessDescriptor 7), Attach (BiDirectionFirstDescriptor 8), Detach 1])) 2 (BiDirectionFirstDescriptor 8)"
proof -
  let ?calls = "[Attach (MemoryAccessDescriptor 7), Attach (BiDirectionFirstDescriptor 8), Detach 1]"
  have h: "num_attach ?calls < 2 ^ 64 - 1" by (simp add: num_attach_def)
  have g: "getDescriptor (fst (universe_run Universe_new ?calls)) 2 = Some (BiDirectionFirstDescriptor 8)"
    by (simp add: universe_run_def attachDescriptor_def detachDescriptor_def getDescriptor_def Universe_new_def Let_def)
  have s: "?calls = [Attach (MemoryAccessDescriptor 7)] @ Attach (BiDirectionFirstDescriptor 8) # [Detach 1]"
    by simp
  note t = Universe_handles_until_wrap [OF h]
  from t s have "(if is_attach (Attach (BiDirectionFirstDescriptor 8))
             then nextHandle (fst (universe_run Universe_new [Attach (MemoryAccessDescriptor 7)]))
                  < nextHandle (fst (universe_run Universe_new ([Attach (MemoryAccessDescriptor 7)] @ [Attach (BiDirectionFirstDescriptor 8)])))
             else nextHandle (fst (universe_run Universe_new [Attach (MemoryAccessDescriptor 7)]))
                  = nextHandle (fst (universe_run Universe_new ([Attach (MemoryAccessDescriptor 7)] @ [Attach (BiDirectionFirstDescriptor 8)]))))"
    by blast
  with t g h show ?thesis by simp
qed

lemma num_attach_rounds: "num_attach (attach_detach_rounds first n) = n"
  by (induction n) (simp_all add: num_attach_def)

text \<open>
  C1 as stated fails: after \<open>2^64 - 1\<close> rounds of attach and detach on a new Universe
  the counter has wrapped to 0, and the next attach returns the null handle 0.
\<close>

theorem Universe_null_handle_counterexample:
  "fst (attachDescriptor
          (fst (universe_run Universe_new (attach_detach_rounds 1 18446744073709551615)))
          (MemoryAccessDescriptor 0)) = 0"
  by (simp add: attachDescriptor_def Let_def nextHandle_run num_attach_rounds Universe_new_def)


section \<open>Closed handles\<close>


lemma hel_resolve_bad_handle:
  "h \<in> set hs \<Longrightarrow> getDescriptor u h = None \<Longrightarrow> hel_resolve u hs = Inl IllegalHandle"
proof (induction hs)
  case Nil
  then show ?case by simp
next
  case (Cons a hs)
  show ?case
  proof (cases "getDescriptor u a")
    case None
    then show ?thesis by simp
  next
    case (Some d)
    with Cons have "h \<in> set hs" by auto
    with Cons have "hel_resolve u hs = Inl IllegalHandle" by simp
    with Some show ?thesis by simp
  qed
qed

lemma closed_handle_stays_closed:
  assumes "descriptorMap u h = None" and "unat h < unat (nextHandle u)"
    and "unat (nextHandle u) + num_attach calls < 2 ^ 64"
  shows "descriptorMap (fst (universe_run u calls)) h = None
       \<and> unat (nextHandle (fst (universe_run u calls))) = unat (nextHandle u) + num_attach calls"
  using assms(3)
proof (induction calls rule: rev_induct)
  case Nil
  show ?case using assms(1) by (simp add: universe_run_Nil num_attach_def)
next
  case (snoc c calls)
  obtain u' evs where r: "universe_run u calls = (u', evs)"
    by (cases "universe_run u calls")
  have "num_attach calls \<le> num_attach (calls @ [c])" by (simp add: num_attach_def)
  with snoc r have m: "descriptorMap u' h = None"
    and nh: "unat (nextHandle u') = unat (nextHandle u) + num_attach calls"
    by simp_all
  show ?case
  proof (cases c)
    case (Attach d)
    then have b: "unat (nextHandle u') + 1 < 2 ^ 64"
      using snoc.prems nh by (simp add: num_attach_def)
    then have s: "unat (nextHandle u' + 1) = unat (nextHandle u') + 1"
      by (simp add: unat_word_ariths)
    have "nextHandle u' \<noteq> h" using assms(2) nh by auto
    with m nh s Attach r show ?thesis
      by (simp add: universe_run_snoc num_attach_def attachDescriptor_def Let_def)
  next
    case (Detach h')
    with m nh r show ?thesis
      by (simp add: universe_run_snoc num_attach_def detachDescriptor_def)
  qed
qed

text \<open>
  C5, as the code has it: the handle counter wraps, so a closed handle stays closed only
  until the counter comes round to it again. In a Universe that sees fewer than
  \<open>2^64 - 1\<close> attach calls in all, once \<open>CloseDescriptor(h)\<close> has succeeded, every
  syscall that takes \<open>h\<close> among its handle arguments returns the error word
  \<open>IllegalHandle\<close>, whatever descriptors are attached and detached in between.
\<close>

theorem closed_handle_is_illegal_until_wrap:
  assumes "num_attach (before @ later) < 2 ^ 64 - 1"
    and "helCloseDescriptor (fst (universe_run Universe_new before)) h = (Ok, u')"
    and "h \<in> set handles"
  shows "hel_syscall (fst (universe_run u' later)) handles operation = IllegalHandle"
proof -
  let ?u = "fst (universe_run Universe_new before)"
  let ?evs = "snd (universe_run Universe_new before)"
  have nb: "num_attach before < 2 ^ 64 - 1"
    using assms(1) by (simp add: num_attach_append)
  from universe_run_inv[OF nb]
  have inv: "universe_inv ?u ?evs" and nh: "unat (nextHandle ?u) = 1 + num_attach before"
    by simp_all
  from assms(2) obtain d where d: "descriptorMap ?u h = Some d"
    and u': "u' = ?u\<lparr> descriptorMap := (descriptorMap ?u)(h := None) \<rparr>"
    by (auto simp: helCloseDescriptor_def detachDescriptor_def split: option.splits)
  from inv d have "live ?evs h d" by (simp add: universe_inv_def)
  then have "h \<in> set (issued_handles ?evs)" by (rule live_issued)
  with inv have lt: "unat h < unat (nextHandle ?u)" by (simp add: universe_inv_def)
  have 1: "descriptorMap u' h = None" using u' by simp
  have 2: "unat h < unat (nextHandle u')" using u' lt by simp
  have 3: "unat (nextHandle u') + num_attach later < 2 ^ 64"
    using u' nh assms(1) by (simp add: num_attach_append)
  from closed_handle_stays_closed[OF 1 2 3]
  have "getDescriptor (fst (universe_run u' later)) h = None"
    by (simp add: getDescriptor_def)
  with assms(3) have "hel_resolve (fst (universe_run u' later)) handles = Inl IllegalHandle"
    by (rule hel_resolve_bad_handle)
  then show ?thesis by (simp add: hel_syscall_def)
qed

theorem closed_handle_is_illegal_until_wrap_witness:
  "num_attach ([Attach (MemoryAccessDescriptor 7), Attach (BiDirectionFirstDescriptor 8)]
               @ [Attach (BiDirectionSecondDescriptor 8), Detach 2]) < 2 ^ 64 - 1
   \<and> fst (helCloseDescriptor (fst (universe_run Universe_new
           [Attach (MemoryAccessDescriptor 7), Attach (BiDirectionFirstDescriptor 8)])) 1) = Ok
   \<and> (1 :: Handle) \<in> set [3, 1]
   \<and> hel_syscall
        (fst (universe_run
           (snd (helCloseDescriptor (fst (universe_run Universe_new
              [Attach (MemoryAccessDescriptor 7), Attach (BiDirectionFirstDescriptor 8)])) 1))
           [Attach (BiDirectionSecondDescriptor 8), Detach 2]))
        [3, 1] sample_operation = IllegalHandle"
proof -
  let ?before = "[Attach (MemoryAccessDescriptor 7), Attach (BiDirectionFirstDescriptor 8)]"
  let ?later = "[Attach (BiDirectionSecondDescriptor 8), Detach 2]"
  let ?c = "helCloseDescriptor (fst (universe_run Universe_new ?before)) 1"
  have a: "num_attach (?before @ ?later) < 2 ^ 64 - 1" by (simp add: num_attach_def)
  have b: "fst ?c = Ok"
    by (simp add: helCloseDescriptor_def detachDescriptor_def universe_run_def
        attachDescriptor_def Universe_new_def Let_def)
  then have b': "?c = (Ok, snd ?c)" by (metis prod.collapse)
  have c: "(1 :: Handle) \<in> set [3, 1]" by simp
  from closed_handle_is_illegal_until_wrap [OF a b' c, of sample_operation] a b c
  show ?thesis by blast
qed

text \<open>
  C5 as stated fails: handle 1 is attached and closed; after \<open>2^64 - 1\<close> rounds of attach
  and detach the counter has wrapped to 1, the next attach is given handle 1 again, and a
  syscall that takes handle 1 no longer returns \<open>IllegalHandle\<close>.
\<close>

theorem reissued_handle_counterexample:
  "fst (helCloseDescriptor
          (fst (universe_run Universe_new [Attach (MemoryAccessDescriptor 7)])) 1) = Ok
   \<and> hel_syscall
        (fst (universe_run
           (snd (helCloseDescriptor
                   (fst (universe_run Universe_new [Attach (MemoryAccessDescriptor 7)])) 1))
           (attach_detach_rounds 2 18446744073709551615
            @ [Attach (MemoryAccessDescriptor 9)])))
        [1] sample_operation = Ok"
proof -
  let ?u1 = "fst (universe_run Universe_new [Attach (MemoryAccessDescriptor 7)])"
  let ?c = "helCloseDescriptor ?u1 1"
  have u1: "?u1 = \<lparr> descriptorMap = [1 \<mapsto> MemoryAccessDescriptor 7], nextHandle = 2 \<rparr>"
    by (simp add: universe_run_def attachDescriptor_def Universe_new_def Let_def)
  have c: "?c = (Ok, \<lparr> descriptorMap = Map.empty, nextHandle = 2 \<rparr>)"
    by (simp add: u1 helCloseDescriptor_def detachDescriptor_def)
  let ?many = "attach_detach_rounds 2 18446744073709551615"
  obtain u2 evs where r: "universe_run (snd ?c) ?many = (u2, evs)"
    by (cases "universe_run (snd ?c) ?many")
  have "nextHandle (fst (universe_run (snd ?c) ?many)) = 1"
    by (simp add: c nextHandle_run num_attach_rounds)
  with r have n: "nextHandle u2 = 1" by simp
  have "universe_run (snd ?c) (?many @ [Attach (MemoryAccessDescriptor 9)])
      = universe_step (u2, evs) (Attach (MemoryAccessDescriptor 9))"
    by (simp only: universe_run_snoc r)
  with n have "getDescriptor (fst (universe_run (snd ?c)
           (?many @ [Attach (MemoryAccessDescriptor 9)]))) 1 = Some (MemoryAccessDescriptor 9)"
    by (simp add: attachDescriptor_def Let_def getDescriptor_def)
  then show ?thesis by (simp add: c hel_syscall_def sample_operation_def)
qed


section \<open>Properties of channels and pipes\<close>


lemma all_match_iff:
  "all_match ms rs \<longleftrightarrow> (\<forall>m \<in> set ms. \<forall>r \<in> set rs. matches m r)"
  by (simp add: all_match_def list_all_iff)

lemma extract_head: "P x \<Longrightarrow> List.extract P (x # xs) = Some ([], x, xs)"
  by (simp add: extract_Cons_code)

lemma extract_none: "\<not> list_ex P xs \<Longrightarrow> List.extract P xs = None"
  by (simp add: extract_None_iff list_ex_iff)

lemma extract_last:
  "\<not> list_ex P xs \<Longrightarrow> P x \<Longrightarrow> List.extract P (xs @ [x]) = Some (xs, x, [])"
  by (simp add: extract_Some_iff list_ex_iff)

lemma channel_run_matched:
  assumes "all_match (pendingMessages ch @ sent_messages cs)
                     (pendingReceives ch @ submitted_receives cs)"
    and "pendingMessages ch = [] \<or> pendingReceives ch = []"
  shows "snd (channel_run ch cs) =
           map (\<lambda>(m, r). completion m r)
             (zip (pendingMessages ch @ sent_messages cs)
                  (pendingReceives ch @ submitted_receives cs))"
  using assms
proof (induction cs arbitrary: ch)
  case Nil
  then show ?case by auto
next
  case (Cons c cs)
  show ?case
  proof (cases c)
    case (Send m)
    show ?thesis
    proof (cases "pendingReceives ch")
      case Nil
      let ?ch1 = "ch\<lparr> pendingMessages := pendingMessages ch @ [m] \<rparr>"
      have step: "channel_step ch c = (?ch1, [])"
        using Send Nil by (simp add: Channel_sendString_def extract_Nil_code)
      have "all_match (pendingMessages ?ch1 @ sent_messages cs)
                      (pendingReceives ?ch1 @ submitted_receives cs)"
        using Cons.prems(1) Send Nil by (simp add: all_match_iff)
      moreover have "pendingMessages ?ch1 = [] \<or> pendingReceives ?ch1 = []"
        using Nil by simp
      ultimately have "snd (channel_run ?ch1 cs) =
           map (\<lambda>(m, r). completion m r)
             (zip (pendingMessages ?ch1 @ sent_messages cs)
                  (pendingReceives ?ch1 @ submitted_receives cs))"
        by (rule Cons.IH)
      with step Send Nil show ?thesis
        by (simp add: case_prod_unfold)
    next
      case (Cons r rs)
      with Cons.prems(2) have pm: "pendingMessages ch = []" by simp
      have "matches m r"
        using Cons.prems(1) Send Cons by (simp add: all_match_iff)
      then have ex: "List.extract (matches m) (pendingReceives ch) = Some ([], r, rs)"
        using Cons by (simp add: extract_head)
      let ?ch1 = "ch\<lparr> pendingReceives := rs \<rparr>"
      have step: "channel_step ch c = (?ch1, [completion m r])"
        using Send ex by (simp add: Channel_sendString_def)
      have "all_match (pendingMessages ?ch1 @ sent_messages cs)
                      (pendingReceives ?ch1 @ submitted_receives cs)"
        using Cons.prems(1) Send Cons pm by (simp add: all_match_iff)
      moreover have "pendingMessages ?ch1 = [] \<or> pendingReceives ?ch1 = []"
        using pm by simp
      ultimately have "snd (channel_run ?ch1 cs) =
           map (\<lambda>(m, r). completion m r)
             (zip (pendingMessages ?ch1 @ sent_messages cs)
                  (pendingReceives ?ch1 @ submitted_receives cs))"
        by (rule Cons.IH)
      with step Send Cons pm show ?thesis
        by (simp add: case_prod_unfold)
    qed
  next
    case (SubmitRecv r)
    show ?thesis
    proof (cases "pendingMessages ch")
      case Nil
      let ?ch1 = "ch\<lparr> pendingReceives := pendingReceives ch @ [r] \<rparr>"
      have step: "channel_step ch c = (?ch1, [])"
        using SubmitRecv Nil by (simp add: Channel_submitRecvString_def extract_Nil_code)
      have "all_match (pendingMessages ?ch1 @ sent_messages cs)
                      (pendingReceives ?ch1 @ submitted_receives cs)"
        using Cons.prems(1) SubmitRecv Nil by (simp add: all_match_iff)
      moreover have "pendingMessages ?ch1 = [] \<or> pendingReceives ?ch1 = []"
        using Nil by simp
      ultimately have "snd (channel_run ?ch1 cs) =
           map (\<lambda>(m, r). completion m r)
             (zip (pendingMessages ?ch1 @ sent_messages cs)
                  (pendingReceives ?ch1 @ submitted_receives cs))"
        by (rule Cons.IH)
      with step SubmitRecv Nil show ?thesis
        by (simp add: case_prod_unfold)
    next
      case (Cons m ms)
      with Cons.prems(2) have pr: "pendingReceives ch = []" by simp
      have "matches m r"
        using Cons.prems(1) SubmitRecv Cons by (simp add: all_match_iff)
      then have ex: "List.extract (\<lambda>m. matches m r) (pendingMessages ch) = Some ([], m, ms)"
        using Cons by (simp add: extract_head)
      let ?ch1 = "ch\<lparr> pendingMessages := ms \<rparr>"
      have step: "channel_step ch c = (?ch1, [completion m r])"
        using SubmitRecv ex by (simp add: Channel_submitRecvString_def)
      have "all_match (pendingMessages ?ch1 @ sent_messages cs)
                      (pendingReceives ?ch1 @ submitted_receives cs)"
        using Cons.prems(1) SubmitRecv Cons pr by (simp add: all_match_iff)
      moreover have "pendingMessages ?ch1 = [] \<or> pendingReceives ?ch1 = []"
        using pr by simp
      ultimately have "snd (channel_run ?ch1 cs) =
           map (\<lambda>(m, r). completion m r)
             (zip (pendingMessages ?ch1 @ sent_messages cs)
                  (pendingReceives ?ch1 @ submitted_receives cs))"
        by (rule Cons.IH)
      with step SubmitRecv Cons pr show ?thesis
        by (simp add: case_prod_unfold)
    qed
  qed
qed

lemma completion_delivers:
  assumes "length (msgPayload m) \<le> recvMaxLength r"
  shows "dBytes (completion m r) = msgPayload m
       \<and> evError (dEvent (completion m r)) = Ok
       \<and> evLength (dEvent (completion m r)) = length (msgPayload m)
       \<and> evMsgRequest (dEvent (completion m r)) = msgRequest m
       \<and> evMsgSequence (dEvent (completion m r)) = msgSequence m
       \<and> evAsyncId (dEvent (completion m r)) = asyncId (recvSubmitInfo r)
       \<and> dHub (completion m r) = recvHub r \<and> dBuffer (completion m r) = recvBuffer r"
  using assms by (simp add: completion_def)

text \<open>
  C2: for every interleaving of sends and receive submissions on a new channel in which
  every receive filter matches every message sent, the completions come in send order:
  the \<open>i\<close>-th completion pairs the \<open>i\<close>-th message sent with the \<open>i\<close>-th receive
  submitted, and (its buffer being large enough) hands that receive the payload and the
  \<open>(msg_request, msg_seq)\<close> of the \<open>i\<close>-th message.
\<close>

theorem Channel_completions_in_send_order:
  assumes "all_match (sent_messages calls) (submitted_receives calls)"
  shows "snd (channel_run Channel_new calls) =
           map (\<lambda>(m, r). completion m r)
             (zip (sent_messages calls) (submitted_receives calls))
       \<and> (\<forall>i < length (snd (channel_run Channel_new calls)).
            length (msgPayload (sent_messages calls ! i))
              \<le> recvMaxLength (submitted_receives calls ! i) \<longrightarrow>
            dBytes (snd (channel_run Channel_new calls) ! i)
              = msgPayload (sent_messages calls ! i) \<and>
            evMsgRequest (dEvent (snd (channel_run Channel_new calls) ! i))
              = msgRequest (sent_messages calls ! i) \<and>
            evMsgSequence (dEvent (snd (channel_run Channel_new calls) ! i))
              = msgSequence (sent_messages calls ! i) \<and>
            evAsyncId (dEvent (snd (channel_run Channel_new calls) ! i))
              = asyncId (recvSubmitInfo (submitted_receives calls ! i)))"
proof -
  have eq: "snd (channel_run Channel_new calls) =
           map (\<lambda>(m, r). completion m r)
             (zip (sent_messages calls) (submitted_receives calls))"
    using channel_run_matched[of Channel_new calls] assms
    by (simp add: Channel_new_def)
  show ?thesis
    unfolding eq using completion_delivers by (auto simp: eq)
qed



theorem Channel_completions_in_send_order_witness:
  "all_match
     (sent_messages
        [SubmitRecv \<lparr> recvHub = 5, recvBuffer = 4096, recvMaxLength = 8,
                      recvFilterRequest = - 1, recvFilterSequence = - 1,
                      recvSubmitInfo = SubmitInfo_init 7 0 0 \<rparr>,
         Send \<lparr> msgPayload = [104, 105], msgRequest = 1, msgSequence = 1 \<rparr>,
         Send \<lparr> msgPayload = [111], msgRequest = 1, msgSequence = 2 \<rparr>,
         SubmitRecv \<lparr> recvHub = 5, recvBuffer = 8192, recvMaxLength = 8,
                      recvFilterRequest = 1, recvFilterSequence = - 1,
                      recvSubmitInfo = SubmitInfo_init 8 0 0 \<rparr>])
     (submitted_receives
        [SubmitRecv \<lparr> recvHub = 5, recvBuffer = 4096, recvMaxLength = 8,
                      recvFilterRequest = - 1, recvFilterSequence = - 1,
                      recvSubmitInfo = SubmitInfo_init 7 0 0 \<rparr>,
         Send \<lparr> msgPayload = [104, 105], msgRequest = 1, msgSequence = 1 \<rparr>,
         Send \<lparr> msgPayload = [111], msgRequest = 1, msgSequence = 2 \<rparr>,
         SubmitRecv \<lparr> recvHub = 5, recvBuffer = 8192, recvMaxLength = 8,
                      recvFilterRequest = 1, recvFilterSequence = - 1,
                      recvSubmitInfo = SubmitInfo_init 8 0 0 \<rparr>])
   \<and> map dBytes (snd (channel_run Channel_new
        [SubmitRecv \<lparr> recvHub = 5, recvBuffer = 4096, recvMaxLength = 8,
                      recvFilterRequest = - 1, recvFilterSequence = - 1,
                      recvSubmitInfo = SubmitInfo_init 7 0 0 \<rparr>,
         Send \<lparr> msgPayload = [104, 105], msgRequest = 1, msgSequence = 1 \<rparr>,
         Send \<lparr> msgPayload = [111], msgRequest = 1, msgSequence = 2 \<rparr>,
         SubmitRecv \<lparr> recvHub = 5, recvBuffer = 8192, recvMaxLength = 8,
                      recvFilterRequest = 1, recvFilterSequence = - 1,
                      recvSubmitInfo = SubmitInfo_init 8 0 0 \<rparr>]))
     = [[104, 105], [111]]"
proof -
  let ?calls = "[SubmitRecv \<lparr> recvHub = 5, recvBuffer = 4096, recvMaxLength = 8,
                      recvFilterRequest = - 1, recvFilterSequence = - 1,
                      recvSubmitInfo = SubmitInfo_init 7 0 0 \<rparr>,
         Send \<lparr> msgPayload = [104, 105], msgRequest = 1, msgSequence = 1 \<rparr>,
         Send \<lparr> msgPayload = [111], msgRequest = 1, msgSequence = 2 \<rparr>,
         SubmitRecv \<lparr> recvHub = 5, recvBuffer = 8192, recvMaxLength = 8,
                      recvFilterRequest = 1, recvFilterSequence = - 1,
                      recvSubmitInfo = SubmitInfo_init 8 0 0 \<rparr>]"
  have h: "all_match (sent_messages ?calls) (submitted_receives ?calls)"
    by (simp add: all_match_def matches_def wildcard_def)
  from Channel_completions_in_send_order [OF h]
  have "snd (channel_run Channel_new ?calls) =
           map (\<lambda>(m, r). completion m r)
             (zip (sent_messages ?calls) (submitted_receives ?calls))"
    by (rule conjunct1)
  then have "map dBytes (snd (channel_run Channel_new ?calls)) = [[104, 105], [111]]"
    by (simp add: completion_def)
  with h show ?thesis by (rule conjI)
qed

text \<open>
  C3: a \<open>SendString\<close> of \<open>len\<close> bytes of \<open>buf_in\<close> through one endpoint of a pipe,
  followed by a \<open>SubmitRecvString\<close> on the peer endpoint whose filter matches and whose
  buffer holds at least \<open>len\<close> bytes, delivers to the receiver exactly
  \<open>buf_in[0..len]\<close> with the same \<open>(msg_request, msg_seq)\<close>. The two are a matching
  pair: no receive already waiting on the channel takes the message, and no message
  already pending on it matches the receive's filter.
\<close>

theorem SendString_SubmitRecvString_roundtrip:
  assumes "len \<le> length buf_in" and "len \<le> recv_len"
    and "filter_request = wildcard \<or> filter_request = msg_request"
    and "filter_seq = wildcard \<or> filter_seq = msg_seq"
    and "\<not> list_ex (matches \<lparr> msgPayload = take len buf_in, msgRequest = msg_request,
                                msgSequence = msg_seq \<rparr>)
                     (pendingReceives (send_channel e p))"
    and "\<not> list_ex (\<lambda>m. matches m
                        \<lparr> recvHub = hub, recvBuffer = buf, recvMaxLength = recv_len,
                          recvFilterRequest = filter_request,
                          recvFilterSequence = filter_seq,
                          recvSubmitInfo = SubmitInfo_init async_id sub_fn sub_obj \<rparr>)
                     (pendingMessages (send_channel e p))"
  shows "fst (helSendString e p buf_in len msg_request msg_seq) = Ok
       \<and> snd (snd (helSendString e p buf_in len msg_request msg_seq)) = []
       \<and> fst (helSubmitRecvString (peer e)
                (fst (snd (helSendString e p buf_in len msg_request msg_seq)))
                hub buf recv_len filter_request filter_seq async_id sub_fn sub_obj) = Ok
       \<and> snd (snd (helSubmitRecvString (peer e)
                (fst (snd (helSendString e p buf_in len msg_request msg_seq)))
                hub buf recv_len filter_request filter_seq async_id sub_fn sub_obj))
         = [\<lparr> dHub = hub,
              dEvent = \<lparr> evType = RecvStringEvent, evError = Ok, evAsyncId = async_id,
                         evSubmitFunction = sub_fn, evSubmitObject = sub_obj,
                         evLength = len, evMsgRequest = msg_request,
                         evMsgSequence = msg_seq, evHandle = 0 \<rparr>,
              dBuffer = buf, dBytes = take len buf_in \<rparr>]"
proof -
  let ?m = "\<lparr> msgPayload = take len buf_in, msgRequest = msg_request,
              msgSequence = msg_seq \<rparr>"
  let ?r = "\<lparr> recvHub = hub, recvBuffer = buf, recvMaxLength = recv_len,
              recvFilterRequest = filter_request, recvFilterSequence = filter_seq,
              recvSubmitInfo = SubmitInfo_init async_id sub_fn sub_obj \<rparr>"
  let ?ch = "send_channel e p"
  have mr: "matches ?m ?r" using assms(3,4) by (simp add: matches_def)
  have s: "Channel_sendString ?ch ?m = (?ch\<lparr> pendingMessages := pendingMessages ?ch @ [?m] \<rparr>, [])"
    using assms(5) by (simp add: Channel_sendString_def extract_none)
  have "List.extract (\<lambda>m. matches m ?r) (pendingMessages ?ch @ [?m])
          = Some (pendingMessages ?ch, ?m, [])"
    using assms(6) mr by (rule extract_last)
  then have r: "snd (Channel_submitRecvString
                  (?ch\<lparr> pendingMessages := pendingMessages ?ch @ [?m] \<rparr>) ?r)
                = [completion ?m ?r]"
    by (simp add: Channel_submitRecvString_def)
  have c: "completion ?m ?r =
            \<lparr> dHub = hub,
              dEvent = \<lparr> evType = RecvStringEvent, evError = Ok, evAsyncId = async_id,
                         evSubmitFunction = sub_fn, evSubmitObject = sub_obj,
                         evLength = len, evMsgRequest = msg_request,
                         evMsgSequence = msg_seq, evHandle = 0 \<rparr>,
              dBuffer = buf, dBytes = take len buf_in \<rparr>"
    using assms(1,2) by (simp add: completion_def SubmitInfo_init_def min_def)
  show ?thesis
  proof (cases e)
    case FirstEnd
    with s r c assms(1) show ?thesis
      by (simp add: helSendString_def helSubmitRecvString_def
          BiDirectionFirst_sendString_def BiDirectionSecond_recvString_def case_prod_unfold)
  next
    case SecondEnd
    with s r c assms(1) show ?thesis
      by (simp add: helSendString_def helSubmitRecvString_def
          BiDirectionSecond_sendString_def BiDirectionFirst_recvString_def case_prod_unfold)
  qed
qed



theorem SendString_SubmitRecvString_roundtrip_witness:
  "(5::nat) \<le> length [104, 101, 108, 108, 111, 33 :: byte] \<and> (5::nat) \<le> 16
   \<and> \<not> list_ex (matches \<lparr> msgPayload = take 5 [104, 101, 108, 108, 111, 33],
                              msgRequest = 3, msgSequence = 4 \<rparr>)
                   (pendingReceives (send_channel FirstEnd BiDirectionPipe_new))
   \<and> snd (snd (helSubmitRecvString (peer FirstEnd)
                (fst (snd (helSendString FirstEnd BiDirectionPipe_new
                             [104, 101, 108, 108, 111, 33] 5 3 4)))
                9 4096 16 (- 1) 4 7 0 0))
         = [\<lparr> dHub = 9,
              dEvent = \<lparr> evType = RecvStringEvent, evError = Ok, evAsyncId = 7,
                         evSubmitFunction = 0, evSubmitObject = 0,
                         evLength = 5, evMsgRequest = 3,
                         evMsgSequence = 4, evHandle = 0 \<rparr>,
              dBuffer = 4096, dBytes = [104, 101, 108, 108, 111] \<rparr>]"
proof -
  have 1: "(5::nat) \<le> length [104, 101, 108, 108, 111, 33 :: byte]" by simp
  have 2: "(5::nat) \<le> 16" by simp
  have 3: "(- 1 :: int64_t) = wildcard \<or> (- 1 :: int64_t) = 3" by (simp add: wildcard_def)
  have 4: "(4 :: int64_t) = wildcard \<or> (4 :: int64_t) = 4" by simp
  have 5: "\<not> list_ex (matches \<lparr> msgPayload = take 5 [104, 101, 108, 108, 111, 33],
                              msgRequest = 3, msgSequence = 4 \<rparr>)
                   (pendingReceives (send_channel FirstEnd BiDirectionPipe_new))"
    by (simp add: BiDirectionPipe_new_def Channel_new_def)
  have 6: "\<not> list_ex (\<lambda>m. matches m
                        \<lparr> recvHub = 9, recvBuffer = 4096, recvMaxLength = 16,
                          recvFilterRequest = - 1, recvFilterSequence = 4,
                          recvSubmitInfo = SubmitInfo_init 7 0 0 \<rparr>)
                     (pendingMessages (send_channel FirstEnd BiDirectionPipe_new))"
    by (simp add: BiDirectionPipe_new_def Channel_new_def)
  from SendString_SubmitRecvString_roundtrip [OF 1 2 3 4 5 6] 1 2 5
  show ?thesis by simp
qed

text \<open>
  C6: the First descriptor sends on the second channel of its pipe and receives from the
  first, leaving the other channel as it is; the Second descriptor sends on the first
  channel and receives from the second. Hence what an endpoint's own receive completes
  does not depend on what that endpoint sent, and on a new pipe a message sent through
  one endpoint is completed by a matching receive on the other endpoint and not by one on
  the same endpoint.
\<close>

theorem BiDirectionPipe_endpoint_channels:
  assumes "matches m r"
  shows "firstChannel (fst (BiDirectionFirst_sendString p m)) = firstChannel p
       \<and> (secondChannel (fst (BiDirectionFirst_sendString p m)),
            snd (BiDirectionFirst_sendString p m)) = Channel_sendString (secondChannel p) m
       \<and> secondChannel (fst (BiDirectionFirst_recvString p r)) = secondChannel p
       \<and> (firstChannel (fst (BiDirectionFirst_recvString p r)),
            snd (BiDirectionFirst_recvString p r)) = Channel_submitRecvString (firstChannel p) r
       \<and> secondChannel (fst (BiDirectionSecond_sendString p m)) = secondChannel p
       \<and> (firstChannel (fst (BiDirectionSecond_sendString p m)),
            snd (BiDirectionSecond_sendString p m)) = Channel_sendString (firstChannel p) m
       \<and> firstChannel (fst (BiDirectionSecond_recvString p r)) = firstChannel p
       \<and> (secondChannel (fst (BiDirectionSecond_recvString p r)),
            snd (BiDirectionSecond_recvString p r)) = Channel_submitRecvString (secondChannel p) r
       \<and> snd (endpoint_recvString e (fst (endpoint_sendString e p m)) r)
           = snd (endpoint_recvString e p r)
       \<and> snd (endpoint_recvString (peer e)
                (fst (endpoint_sendString e BiDirectionPipe_new m)) r) = [completion m r]
       \<and> snd (endpoint_recvString e
                (fst (endpoint_sendString e BiDirectionPipe_new m)) r) = []"
proof -
  have own: "snd (endpoint_recvString e (fst (endpoint_sendString e p m)) r)
           = snd (endpoint_recvString e p r)"
    by (cases e)
       (simp_all add: BiDirectionFirst_sendString_def BiDirectionFirst_recvString_def
          BiDirectionSecond_sendString_def BiDirectionSecond_recvString_def case_prod_unfold)
  have s: "Channel_sendString Channel_new m = (\<lparr> pendingMessages = [m], pendingReceives = [] \<rparr>, [])"
    by (simp add: Channel_sendString_def Channel_new_def extract_Nil_code)
  have rr: "snd (Channel_submitRecvString \<lparr> pendingMessages = [m], pendingReceives = [] \<rparr> r)
           = [completion m r]"
    using assms by (simp add: Channel_submitRecvString_def extract_Cons_code)
  have r0: "snd (Channel_submitRecvString Channel_new r) = []"
    by (simp add: Channel_submitRecvString_def Channel_new_def extract_Nil_code)
  have other: "snd (endpoint_recvString (peer e)
                (fst (endpoint_sendString e BiDirectionPipe_new m)) r) = [completion m r]"
    using s rr
    by (cases e)
       (simp_all add: BiDirectionFirst_sendString_def BiDirectionFirst_recvString_def
          BiDirectionSecond_sendString_def BiDirectionSecond_recvString_def
          BiDirectionPipe_new_def case_prod_unfold)
  have self: "snd (endpoint_recvString e
                (fst (endpoint_sendString e BiDirectionPipe_new m)) r) = []"
    using s r0
    by (cases e)
       (simp_all add: BiDirectionFirst_sendString_def BiDirectionFirst_recvString_def
          BiDirectionSecond_sendString_def BiDirectionSecond_recvString_def
          BiDirectionPipe_new_def case_prod_unfold)
  have frame: "firstChannel (fst (BiDirectionFirst_sendString p m)) = firstChannel p
       \<and> (secondChannel (fst (BiDirectionFirst_sendString p m)),
            snd (BiDirectionFirst_sendString p m)) = Channel_sendString (secondChannel p) m
       \<and> secondChannel (fst (BiDirectionFirst_recvString p r)) = secondChannel p
       \<and> (firstChannel (fst (BiDirectionFirst_recvString p r)),
            snd (BiDirectionFirst_recvString p r)) = Channel_submitRecvString (firstChannel p) r
       \<and> secondChannel (fst (BiDirectionSecond_sendString p m)) = secondChannel p
       \<and> (firstChannel (fst (BiDirectionSecond_sendString p m)),
            snd (BiDirectionSecond_sendString p m)) = Channel_sendString (firstChannel p) m
       \<and> firstChannel (fst (BiDirectionSecond_recvString p r)) = firstChannel p
       \<and> (secondChannel (fst (BiDirectionSecond_recvString p r)),
            snd (BiDirectionSecond_recvString p r)) = Channel_submitRecvString (secondChannel p) r"
    by (simp add: BiDirectionFirst_sendString_def BiDirectionFirst_recvString_def
          BiDirectionSecond_sendString_def BiDirectionSecond_recvString_def case_prod_unfold)
  from frame own other self show ?thesis by (simp only: simp_thms)
qed

theorem BiDirectionPipe_endpoint_channels_witness:
  "matches \<lparr> msgPayload = [104, 105], msgRequest = 0, msgSequence = 0 \<rparr>
           \<lparr> recvHub = 9, recvBuffer = 4096, recvMaxLength = 2,
             recvFilterRequest = - 1, recvFilterSequence = - 1,
             recvSubmitInfo = SubmitInfo_init 7 0 0 \<rparr>
   \<and> map dBytes (snd (endpoint_recvString (peer SecondEnd)
        (fst (endpoint_sendString SecondEnd BiDirectionPipe_new
                \<lparr> msgPayload = [104, 105], msgRequest = 0, msgSequence = 0 \<rparr>))
        \<lparr> recvHub = 9, recvBuffer = 4096, recvMaxLength = 2,
          recvFilterRequest = - 1, recvFilterSequence = - 1,
          recvSubmitInfo = SubmitInfo_init 7 0 0 \<rparr>)) = [[104, 105]]
   \<and> snd (endpoint_recvString SecondEnd
        (fst (endpoint_sendString SecondEnd BiDirectionPipe_new
                \<lparr> msgPayload = [104, 105], msgRequest = 0, msgSequence = 0 \<rparr>))
        \<lparr> recvHub = 9, recvBuffer = 4096, recvMaxLength = 2,
          recvFilterRequest = - 1, recvFilterSequence = - 1,
          recvSubmitInfo = SubmitInfo_init 7 0 0 \<rparr>) = []"
proof -
  let ?m = "\<lparr> msgPayload = [104, 105 :: byte], msgRequest = 0, msgSequence = 0 \<rparr>"
  let ?r = "\<lparr> recvHub = 9, recvBuffer = 4096, recvMaxLength = 2,
             recvFilterRequest = - 1, recvFilterSequence = - 1,
             recvSubmitInfo = SubmitInfo_init 7 0 0 \<rparr>"
  have h: "matches ?m ?r" by (simp add: matches_def wildcard_def)
  have c: "dBytes (completion ?m ?r) = [104, 105]" by (simp add: completion_def)
  note t = BiDirectionPipe_endpoint_channels [OF h, of BiDirectionPipe_new SecondEnd]
  from t have a: "snd (endpoint_recvString (peer SecondEnd)
        (fst (endpoint_sendString SecondEnd BiDirectionPipe_new ?m)) ?r) = [completion ?m ?r]"
    by blast
  from t have b: "snd (endpoint_recvString SecondEnd
        (fst (endpoint_sendString SecondEnd BiDirectionPipe_new ?m)) ?r) = []"
    by blast
  from a c have "map dBytes (snd (endpoint_recvString (peer SecondEnd)
        (fst (endpoint_sendString SecondEnd BiDirectionPipe_new ?m)) ?r)) = [[104, 105]]"
    by (simp only: list.map)
  with h b show ?thesis by blast
qed


section \<open>Properties of the interrupt entry and the syscall dispatcher\<close>


text \<open>
  C7: whatever the scheduler state, \<open>thorIrq\<close> acknowledges the controller and fires the
  relay of the vector, in this order. For vector 0 it then enters \<open>schedule()\<close>, which
  requeues before it picks; when a thread was Running, that thread is put at the back of
  the ready queue in state Ready, and the next thread is picked from the head of the
  queue so extended. For every other vector it performs a full return to the interrupted
  context, with the scheduler state as the relay left it: \<open>schedule()\<close> is not entered.
\<close>

theorem thorIrq_timer_preempts_others_return:
  "fst (thorIrq fire s 0) = [AcknowledgeIrq 0, RelayFire 0]
   \<and> snd (thorIrq fire s 0) = schedule (fire 0 s)
   \<and> schedule (fire 0 s) = pick_next (preempt_current (fire 0 s))
   \<and> (currentThread (fire 0 s) = Some t \<and> threadState (fire 0 s) t = Running \<longrightarrow>
        scheduleQueue (preempt_current (fire 0 s)) = scheduleQueue (fire 0 s) @ [t]
        \<and> threadState (preempt_current (fire 0 s)) t = Ready
        \<and> currentThread (preempt_current (fire 0 s)) = None
        \<and> snd (snd (thorIrq fire s 0)) = SwitchTo (hd (scheduleQueue (fire 0 s) @ [t])))
   \<and> (irq \<noteq> 0 \<longrightarrow>
        thorIrq fire s irq = ([AcknowledgeIrq irq, RelayFire irq], fire irq s, FullReturn))"
proof -
  let ?s = "fire 0 s"
  have z: "thorIrq fire s 0 = ([AcknowledgeIrq 0, RelayFire 0], schedule ?s)"
    by (simp add: thorIrq_def Let_def case_prod_unfold)
  have sc: "schedule ?s = pick_next (preempt_current ?s)"
    by (simp add: schedule_def)
  have run: "currentThread ?s = Some t \<and> threadState ?s t = Running \<longrightarrow>
        scheduleQueue (preempt_current ?s) = scheduleQueue ?s @ [t]
        \<and> threadState (preempt_current ?s) t = Ready
        \<and> currentThread (preempt_current ?s) = None
        \<and> snd (snd (thorIrq fire s 0)) = SwitchTo (hd (scheduleQueue ?s @ [t]))"
  proof
    assume a: "currentThread ?s = Some t \<and> threadState ?s t = Running"
    then have p: "preempt_current ?s =
             ?s\<lparr> currentThread := None, scheduleQueue := scheduleQueue ?s @ [t],
                 threadState := (threadState ?s)(t := Ready) \<rparr>"
      by (simp add: preempt_current_def)
    have q: "snd (pick_next (preempt_current ?s)) = SwitchTo (hd (scheduleQueue ?s @ [t]))"
      by (cases "scheduleQueue ?s") (simp_all add: p pick_next_def)
    from p q z sc show "scheduleQueue (preempt_current ?s) = scheduleQueue ?s @ [t]
        \<and> threadState (preempt_current ?s) t = Ready
        \<and> currentThread (preempt_current ?s) = None
        \<and> snd (snd (thorIrq fire s 0)) = SwitchTo (hd (scheduleQueue ?s @ [t]))"
      by simp
  qed
  have n: "irq \<noteq> 0 \<longrightarrow>
        thorIrq fire s irq = ([AcknowledgeIrq irq, RelayFire irq], fire irq s, FullReturn)"
    by (simp add: thorIrq_def Let_def)
  from z have z1: "fst (thorIrq fire s 0) = [AcknowledgeIrq 0, RelayFire 0]"
    and z2: "snd (thorIrq fire s 0) = schedule ?s" by simp_all
  from z1 z2 sc run n show ?thesis by (intro conjI)
qed

theorem thorIrq_timer_preempts_others_return_witness:
  "currentThread (sample_fire 0 \<lparr> currentThread = Some 5, scheduleQueue = [6, 7],
                   threadState = (\<lambda>t. Ready)(5 := Running, 9 := Blocked) \<rparr>) = Some 5
   \<and> threadState (sample_fire 0 \<lparr> currentThread = Some 5, scheduleQueue = [6, 7],
                   threadState = (\<lambda>t. Ready)(5 := Running, 9 := Blocked) \<rparr>) 5 = Running
   \<and> (3 :: int) \<noteq> 0
   \<and> scheduleQueue (preempt_current (sample_fire 0
        \<lparr> currentThread = Some 5, scheduleQueue = [6, 7],
          threadState = (\<lambda>t. Ready)(5 := Running, 9 := Blocked) \<rparr>)) = [6, 7, 5]
   \<and> snd (snd (thorIrq sample_fire
                  \<lparr> currentThread = Some 5, scheduleQueue = [6, 7],
                    threadState = (\<lambda>t. Ready)(5 := Running, 9 := Blocked) \<rparr> 0)) = SwitchTo 6
   \<and> snd (snd (thorIrq sample_fire
                  \<lparr> currentThread = Some 5, scheduleQueue = [6, 7],
                    threadState = (\<lambda>t. Ready)(5 := Running, 9 := Blocked) \<rparr> 3)) = FullReturn
   \<and> currentThread (fst (snd (thorIrq sample_fire
                  \<lparr> currentThread = Some 5, scheduleQueue = [6, 7],
                    threadState = (\<lambda>t. Ready)(5 := Running, 9 := Blocked) \<rparr> 3))) = Some 5
   \<and> thorIrq sample_fire
         \<lparr> currentThread = None, scheduleQueue = [],
           threadState = (\<lambda>t. Blocked) \<rparr> 3
       = ([AcknowledgeIrq 3, RelayFire 3],
          \<lparr> currentThread = None, scheduleQueue = [9],
            threadState = (\<lambda>t. Blocked)(9 := Ready) \<rparr>, FullReturn)
   \<and> snd (thorIrq sample_fire
         \<lparr> currentThread = None, scheduleQueue = [],
           threadState = (\<lambda>t. Blocked) \<rparr> 0)
       = (\<lparr> currentThread = None, scheduleQueue = [],
            threadState = (\<lambda>t. Blocked) \<rparr>, Idle)"
proof -
  let ?s = "\<lparr> currentThread = Some (5 :: thread_ref), scheduleQueue = [6, 7],
             threadState = (\<lambda>t. Ready)(5 := Running, 9 := Blocked) \<rparr>"
  let ?idle = "\<lparr> currentThread = None :: thread_ref option, scheduleQueue = [],
                threadState = (\<lambda>t. Blocked) \<rparr>"
  have f0: "sample_fire 0 ?s = ?s" by (simp add: sample_fire_def)
  have a: "currentThread (sample_fire 0 ?s) = Some 5" by (simp add: f0)
  have b: "threadState (sample_fire 0 ?s) 5 = Running" by (simp add: f0)
  have c: "(3 :: int) \<noteq> 0" by simp
  note t = thorIrq_timer_preempts_others_return [of sample_fire ?s 5 3]
  from t a b have 1: "scheduleQueue (preempt_current (sample_fire 0 ?s))
                  = scheduleQueue (sample_fire 0 ?s) @ [5]" by blast
  from t a b have 2: "snd (snd (thorIrq sample_fire ?s 0))
                  = SwitchTo (hd (scheduleQueue (sample_fire 0 ?s) @ [5]))" by blast
  from t c have 3: "thorIrq sample_fire ?s 3
                  = ([AcknowledgeIrq 3, RelayFire 3], sample_fire 3 ?s, FullReturn)" by blast
  from 1 have q1: "scheduleQueue (preempt_current (sample_fire 0 ?s)) = [6, 7, 5]"
    by (simp add: f0)
  from 2 have q2: "snd (snd (thorIrq sample_fire ?s 0)) = SwitchTo 6" by (simp add: f0)
  from 3 have q3: "snd (snd (thorIrq sample_fire ?s 3)) = FullReturn" by simp
  from 3 have q4: "currentThread (fst (snd (thorIrq sample_fire ?s 3))) = Some 5"
    by (simp add: sample_fire_def)
  note ti = thorIrq_timer_preempts_others_return [of sample_fire ?idle 0 3]
  from ti c have 5: "thorIrq sample_fire ?idle 3
                  = ([AcknowledgeIrq 3, RelayFire 3], sample_fire 3 ?idle, FullReturn)" by blast
  then have q5: "thorIrq sample_fire ?idle 3
       = ([AcknowledgeIrq 3, RelayFire 3],
          \<lparr> currentThread = None, scheduleQueue = [9],
            threadState = (\<lambda>t. Blocked)(9 := Ready) \<rparr>, FullReturn)"
    by (simp add: sample_fire_def)
  from ti have 6: "snd (thorIrq sample_fire ?idle 0)
                  = pick_next (preempt_current (sample_fire 0 ?idle))" by simp
  then have q6: "snd (thorIrq sample_fire ?idle 0) = (?idle, Idle)"
    by (simp add: sample_fire_def preempt_current_def pick_next_def)
  from a b c q1 q2 q3 q4 q5 q6 show ?thesis by blast
qed

text \<open>
  C8: for an index that is none of the enumerated syscall codes, \<open>thorSyscall\<close> calls no
  \<open>hel\<close> function and ends in the failed assertion "Illegal syscall": the outcome is
  fatal, and control does not go back to the calling thread.
\<close>

theorem thorSyscall_unknown_index_is_fatal:
  assumes "\<forall>label. code label \<noteq> index"
  shows "thorSyscall code index = ([], Fatal ''Illegal syscall'')
       \<and> (\<forall>ws. snd (thorSyscall code index) \<noteq> TrapReturn ws)
       \<and> snd (thorSyscall code index) \<noteq> ReturnedToCaller"
proof -
  have d: "dropWhile (\<lambda>(label, body). code label \<noteq> index) thorSyscall_cases = []"
    using assms by (simp add: split_beta)
  have "thorSyscall code index = ([], Fatal ''Illegal syscall'')"
    by (simp add: thorSyscall_def switch_from_def thorSyscall_default_def d)
  then show ?thesis by simp
qed

lemma sample_code_range: "sample_code label \<noteq> 0 \<and> unat (sample_code label) \<le> 20"
  by (cases label) simp_all

theorem thorSyscall_unknown_index_is_fatal_witness:
  "(\<forall>label. sample_code label \<noteq> 0)
   \<and> thorSyscall sample_code 0 = ([], Fatal ''Illegal syscall'')"
proof -
  have h: "\<forall>label. sample_code label \<noteq> 0" using sample_code_range by blast
  from thorSyscall_unknown_index_is_fatal [OF h] h show ?thesis by blast
qed

lemma exec_case_body:
  "thorSyscall code index =
     exec (concat (map snd (dropWhile (\<lambda>(label, body). code label \<noteq> index) thorSyscall_cases))
           @ thorSyscall_default @ thorSyscall_end)"
  by (simp add: thorSyscall_def switch_from_def)

text \<open>
  C9: for every enumerated syscall code (the codes being pairwise distinct), running
  \<open>thorSyscall\<close> from the matching label executes the statements of that case alone: one
  \<open>hel\<close> call, then a path that does not return (a trap return, \<open>schedule()\<close> or the
  infinite loop). No case falls through into the next one, and the assertion at the end
  of \<open>thorSyscall\<close> is not reached.
\<close>

theorem thorSyscall_no_fall_through:
  assumes "inj code"
  shows "thorSyscall code (code label) = exec (case_body label)
       \<and> length (fst (thorSyscall code (code label))) = 1
       \<and> no_return (snd (thorSyscall code (code label)))
       \<and> snd (thorSyscall code (code label)) \<noteq> Fatal ''No return at end of thorSyscall()''"
proof -
  have eq: "\<And>a b. (code a = code b) = (a = b)"
    using assms by (simp add: inj_eq)
  have 1: "thorSyscall code (code label) = exec (case_body label)"
    by (cases label)
       (simp_all add: exec_case_body thorSyscall_cases_def case_body_def eq)
  have 2: "length (fst (exec (case_body label))) = 1 \<and> no_return (snd (exec (case_body label)))"
    by (cases label) (simp_all add: thorSyscall_cases_def case_body_def)
  from 2 have 3: "snd (exec (case_body label)) \<noteq> Fatal ''No return at end of thorSyscall()''"
    by (cases "snd (exec (case_body label))") simp_all
  from 1 2 3 show ?thesis by simp
qed

lemma inj_sample_code: "inj sample_code"
proof (rule injI)
  fix x y
  assume "sample_code x = sample_code y"
  then show "x = y" by (cases x; cases y; simp)
qed

theorem thorSyscall_no_fall_through_witness:
  "inj sample_code
   \<and> thorSyscall sample_code (sample_code kHelCallPanic) = ([(''helLog'', [0, 1])], Hang)
   \<and> thorSyscall sample_code (sample_code kHelCallExitThisThread)
       = ([(''helExitThisThread'', [])], Scheduled)
   \<and> thorSyscall sample_code (sample_code kHelCallSendString)
       = ([(''helSendString'', [0, 1, 2, 3, 4])], TrapReturn [''error''])"
proof -
  have a: "exec (case_body kHelCallPanic) = ([(''helLog'', [0, 1])], Hang)"
    by (simp add: case_body_def thorSyscall_cases_def)
  have b: "exec (case_body kHelCallExitThisThread) = ([(''helExitThisThread'', [])], Scheduled)"
    by (simp add: case_body_def thorSyscall_cases_def)
  have c: "exec (case_body kHelCallSendString)
       = ([(''helSendString'', [0, 1, 2, 3, 4])], TrapReturn [''error''])"
    by (simp add: case_body_def thorSyscall_cases_def)
  from thorSyscall_no_fall_through [OF inj_sample_code, of kHelCallPanic]
       thorSyscall_no_fall_through [OF inj_sample_code, of kHelCallExitThisThread]
       thorSyscall_no_fall_through [OF inj_sample_code, of kHelCallSendString]
       a b c inj_sample_code
  show ?thesis by simp
qed


end
